theory Spec2Isabelle
  imports Main "HOL-Library.Multiset"
begin

section \<open>JavaScript values\<close>

text \<open>
  The library inspects arbitrary JavaScript values, and a schema is itself a JavaScript
  value: a function is a callback, a plain object or an array is a container shape, and
  anything else is a literal. Values are therefore one datatype, with the code of a
  function (type \<open>'c\<close>) attached to the function value.

  Numbers: \<open>Fin i\<close> is the double whose value is the integer \<open>i\<close> (fractions and the
  negative zero are left out; the integers meant are those a double holds exactly and
  prints in decimal), next to the three non-finite numbers.
  An object \<open>VObj own inherited\<close> has its own enumerable properties, an association
  list in insertion order (the first binding of a key is the property), and the members
  it inherits through its prototype chain, which a property read finds when the object
  has no own property of that key, and which no enumeration and no
  \<^verbatim>\<open>hasOwnProperty\<close> sees.
  Arrays are lists of slots, \<open>None\<close> being a hole of a sparse array.
  \<open>VWrap v\<close> is the \<^verbatim>\<open>Proxy\<close> that \<^verbatim>\<open>wrapIfSafe\<close> builds around \<open>v\<close>.
\<close>

datatype symbol = SymOther | SymError | SymEnd | SymUnwrap | Sym nat

datatype jsnum = Fin int | NaN | PosInf | NegInf

datatype prim =
    PUndefined
  | PNull
  | PBool bool
  | PNum jsnum
  | PStr string
  | PBigInt int
  | PSymbol symbol

datatype key = KStr string | KSym symbol

datatype 'c jsval =
    VPrim prim
  | VFun nat 'c
  | VObj "(key \<times> 'c jsval) list" "(key \<times> 'c jsval) list"
  | VArr "'c jsval option list"
  | VWrap "'c jsval"

abbreviation undefined_v :: "'c jsval" where
  "undefined_v \<equiv> VPrim PUndefined"

abbreviation true_v :: "'c jsval" where
  "true_v \<equiv> VPrim (PBool True)"

abbreviation false_v :: "'c jsval" where
  "false_v \<equiv> VPrim (PBool False)"

text \<open>Truthiness of a value, as \<^verbatim>\<open>if (error)\<close> and \<^verbatim>\<open>||\<close> read it.\<close>

fun truthy :: "'c jsval \<Rightarrow> bool" where
  "truthy (VPrim PUndefined) = False"
| "truthy (VPrim PNull) = False"
| "truthy (VPrim (PBool b)) = b"
| "truthy (VPrim (PNum (Fin i))) = (i \<noteq> 0)"
| "truthy (VPrim (PNum NaN)) = False"
| "truthy (VPrim (PNum PosInf)) = True"
| "truthy (VPrim (PNum NegInf)) = True"
| "truthy (VPrim (PStr s)) = (s \<noteq> [])"
| "truthy (VPrim (PBigInt i)) = (i \<noteq> 0)"
| "truthy (VPrim (PSymbol y)) = True"
| "truthy (VFun n c) = True"
| "truthy (VObj es ih) = True"
| "truthy (VArr sl) = True"
| "truthy (VWrap v) = True"

text \<open>
  Strict equality with a primitive on the right: the same primitive, except that
  \<^verbatim>\<open>NaN\<close> equals nothing. An object, an array or a function never equals a primitive.
\<close>

fun strictEqPrim :: "'c jsval \<Rightarrow> prim \<Rightarrow> bool" where
  "strictEqPrim (VPrim p) q = (p = q \<and> p \<noteq> PNum NaN)"
| "strictEqPrim _ q = False"

text \<open>Identity of functions: two function values are the same function iff their ids agree.\<close>

fun sameFunction :: "'c jsval \<Rightarrow> 'c jsval \<Rightarrow> bool" where
  "sameFunction (VFun n c) (VFun m d) = (n = m)"
| "sameFunction _ _ = False"

subsection \<open>The matchers table (lines 1--14)\<close>

fun matchers_number :: "'c jsval \<Rightarrow> bool" where
  "matchers_number (VPrim (PNum (Fin i))) = True"
| "matchers_number _ = False"

fun matchers_string :: "'c jsval \<Rightarrow> bool" where
  "matchers_string (VPrim (PStr s)) = True"
| "matchers_string _ = False"

fun matchers_boolean :: "'c jsval \<Rightarrow> bool" where
  "matchers_boolean (VPrim (PBool b)) = True"
| "matchers_boolean _ = False"

fun matchers_null :: "'c jsval \<Rightarrow> bool" where
  "matchers_null (VPrim PNull) = True"
| "matchers_null _ = False"

fun matchers_undefined :: "'c jsval \<Rightarrow> bool" where
  "matchers_undefined (VPrim PUndefined) = True"
| "matchers_undefined _ = False"

definition matchers_defined :: "'c jsval \<Rightarrow> bool" where
  "matchers_defined v = (\<not> matchers_undefined v)"

fun matchers_bigint :: "'c jsval \<Rightarrow> bool" where
  "matchers_bigint (VPrim (PBigInt i)) = True"
| "matchers_bigint _ = False"

fun matchers_symbol :: "'c jsval \<Rightarrow> bool" where
  "matchers_symbol (VPrim (PSymbol y)) = True"
| "matchers_symbol _ = False"

fun matchers_function :: "'c jsval \<Rightarrow> bool" where
  "matchers_function (VFun n c) = True"
| "matchers_function _ = False"

fun matchers_array :: "'c jsval \<Rightarrow> bool" where
  "matchers_array (VArr sl) = True"
| "matchers_array _ = False"

text \<open>
  \<^verbatim>\<open>typeof v === 'object' && v !== null && !Array.isArray(v)\<close>: a plain object, or a
  proxy (whose target is the empty object).
\<close>

fun matchers_object :: "'c jsval \<Rightarrow> bool" where
  "matchers_object (VObj es ih) = True"
| "matchers_object (VWrap v) = True"
| "matchers_object _ = False"

definition matchers_get :: "'c jsval \<Rightarrow> 'c jsval" where
  "matchers_get v = v"

definition symbolList :: "symbol list" where
  "symbolList = [SymOther, SymError, SymEnd]"

subsection \<open>Property keys\<close>

text \<open>
  A string is an array index when it is the canonical decimal form of an integer below
  \<open>2^32 - 1\<close>; such keys are the "numeric-like" keys that the enumeration of an object
  lists first, in ascending order.
\<close>

definition isDigit :: "char \<Rightarrow> bool" where
  "isDigit c = (48 \<le> (of_char c :: nat) \<and> (of_char c :: nat) \<le> 57)"

definition intOfDigits :: "string \<Rightarrow> int" where
  "intOfDigits s = foldl (\<lambda>n c. 10 * n + ((of_char c :: int) - 48)) 0 s"

definition digitString :: "string \<Rightarrow> bool" where
  "digitString s = (s \<noteq> [] \<and> list_all isDigit s)"

definition indexOfKey :: "string \<Rightarrow> nat option" where
  "indexOfKey s =
     (if digitString s \<and> (length s = 1 \<or> hd s \<noteq> CHR ''0'') \<and> intOfDigits s < 4294967295
      then Some (nat (intOfDigits s)) else None)"

fun stringOfNat :: "nat \<Rightarrow> string" where
  "stringOfNat n =
     (if n < 10 then [char_of (48 + n)]
      else stringOfNat (n div 10) @ [char_of (48 + n mod 10)])"

declare stringOfNat.simps [simp del]

definition stringOfInt :: "int \<Rightarrow> string" where
  "stringOfInt i = (if i < 0 then CHR ''-'' # stringOfNat (nat (- i)) else stringOfNat (nat i))"

text \<open>\<^verbatim>\<open>ToPropertyKey\<close> on a primitive.\<close>

fun toPropertyKey :: "prim \<Rightarrow> key" where
  "toPropertyKey (PStr s) = KStr s"
| "toPropertyKey (PSymbol y) = KSym y"
| "toPropertyKey (PNum (Fin i)) = KStr (stringOfInt i)"
| "toPropertyKey (PNum NaN) = KStr ''NaN''"
| "toPropertyKey (PNum PosInf) = KStr ''Infinity''"
| "toPropertyKey (PNum NegInf) = KStr ''-Infinity''"
| "toPropertyKey (PBool b) = KStr (if b then ''true'' else ''false'')"
| "toPropertyKey PNull = KStr ''null''"
| "toPropertyKey PUndefined = KStr ''undefined''"
| "toPropertyKey (PBigInt i) = KStr (stringOfInt i)"

fun primOfKey :: "key \<Rightarrow> prim" where
  "primOfKey (KStr s) = PStr s"
| "primOfKey (KSym y) = PSymbol y"

fun isIndexKey :: "key \<Rightarrow> bool" where
  "isIndexKey (KStr s) = (indexOfKey s \<noteq> None)"
| "isIndexKey (KSym y) = False"

fun isStringKey :: "key \<Rightarrow> bool" where
  "isStringKey (KStr s) = True"
| "isStringKey (KSym y) = False"

fun isSymbolKey :: "key \<Rightarrow> bool" where
  "isSymbolKey (KSym y) = True"
| "isSymbolKey (KStr s) = False"

fun indexValue :: "key \<Rightarrow> int" where
  "indexValue (KStr s) = intOfDigits s"
| "indexValue (KSym y) = 0"

subsection \<open>Own properties\<close>

definition getIndex :: "'c jsval option list \<Rightarrow> nat \<Rightarrow> 'c jsval" where
  "getIndex sl i = (if i < length sl then (case sl ! i of None \<Rightarrow> undefined_v | Some v \<Rightarrow> v)
                    else undefined_v)"

text \<open>
  \<^verbatim>\<open>hasProperty\<close> (line 27) is \<^verbatim>\<open>Object.hasOwnProperty.call\<close>. On a proxy of
  \<^verbatim>\<open>wrapIfSafe\<close> the \<^verbatim>\<open>getOwnPropertyDescriptor\<close> trap (lines 279--283) answers for
  the private unwrap symbol only.
\<close>

fun hasProperty :: "'c jsval \<Rightarrow> key \<Rightarrow> bool" where
  "hasProperty (VObj es ih) k = (map_of es k \<noteq> None)"
| "hasProperty (VArr sl) (KStr s) =
     (case indexOfKey s of
        Some i \<Rightarrow> i < length sl \<and> sl ! i \<noteq> None
      | None \<Rightarrow> s = ''length'')"
| "hasProperty (VArr sl) (KSym y) = False"
| "hasProperty (VWrap v) k = (k = KSym SymUnwrap)"
| "hasProperty _ k = False"

text \<open>
  The property read \<^verbatim>\<open>value[key]\<close> (on an object: the own property, else the
  inherited member, else \<^verbatim>\<open>undefined\<close>), and, mutually, the \<^verbatim>\<open>get\<close> trap of the proxy
  (lines 252--278). The trap receives the property as a value: a string, a symbol, or,
  when a wrapper was itself used as the key, that wrapper (the source coerces it to a
  fresh symbol registered in \<^verbatim>\<open>safeMap\<close>, and the trap reads the wrapped value back
  from there; the timers that report leaked wrappers are outside the model).
\<close>

fun getProp :: "'c jsval \<Rightarrow> key \<Rightarrow> 'c jsval"
  and getter :: "'c jsval \<Rightarrow> 'c jsval \<Rightarrow> 'c jsval" where
  "getProp (VObj es ih) k =
     (case map_of es k of
        Some v \<Rightarrow> v
      | None \<Rightarrow> (case map_of ih k of Some v \<Rightarrow> v | None \<Rightarrow> undefined_v))"
| "getProp (VArr sl) (KStr s) =
     (case indexOfKey s of
        Some i \<Rightarrow> getIndex sl i
      | None \<Rightarrow> if s = ''length'' then VPrim (PNum (Fin (int (length sl)))) else undefined_v)"
| "getProp (VArr sl) (KSym y) = undefined_v"
| "getProp (VWrap v) k = getter v (VPrim (primOfKey k))"
| "getProp (VPrim p) k = undefined_v"
| "getProp (VFun n c) k = undefined_v"
| "getter v property =
     (if property = VPrim (PSymbol SymUnwrap) then v
      else
        let p = (case property of VWrap x \<Rightarrow> x | _ \<Rightarrow> property) in
        (case p of
           VPrim q \<Rightarrow>
             let valid =
               ((matchers_object v \<and> (matchers_symbol p \<or> matchers_string p \<or> matchers_number p)
                 \<or> matchers_array v \<and>
                     ((case q of PStr s \<Rightarrow> digitString s | _ \<Rightarrow> False) \<or> matchers_number p))
                \<and> hasProperty v (toPropertyKey q))
             in VWrap (if valid then getProp v (toPropertyKey q) else undefined_v)
         | _ \<Rightarrow> VWrap undefined_v))"

text \<open>
  \<^verbatim>\<open>allEntries\<close> (lines 28--31): \<^verbatim>\<open>Object.entries\<close> followed by the own symbols. The
  order is the one of the language: the array-index keys in ascending order, the other
  strings in insertion order, the symbols in insertion order. A proxy has the keys of
  its target, the empty object.
\<close>

definition objectEntries :: "(key \<times> 'c jsval) list \<Rightarrow> (key \<times> 'c jsval) list" where
  "objectEntries es =
     sort_key (\<lambda>e. indexValue (fst e)) (filter (\<lambda>e. isIndexKey (fst e)) es)
     @ filter (\<lambda>e. isStringKey (fst e) \<and> \<not> isIndexKey (fst e)) es"

definition ownPropertySymbols :: "(key \<times> 'c jsval) list \<Rightarrow> (key \<times> 'c jsval) list" where
  "ownPropertySymbols es = filter (\<lambda>e. isSymbolKey (fst e)) es"

fun ownProperties :: "'c jsval \<Rightarrow> (key \<times> 'c jsval) list" where
  "ownProperties (VObj es ih) = es"
| "ownProperties _ = []"

definition allEntries :: "'c jsval \<Rightarrow> (key \<times> 'c jsval) list" where
  "allEntries object =
     objectEntries (ownProperties object) @ ownPropertySymbols (ownProperties object)"

section \<open>The instance state (lines 33--57)\<close>

text \<open>
  The mutable variables of \<^verbatim>\<open>createInstance\<close>. \<open>valuesStack\<close> is the variable
  \<^verbatim>\<open>values\<close>; the arrays grow at the end, as \<^verbatim>\<open>push\<close> and \<^verbatim>\<open>pop\<close> do. The
  variable \<^verbatim>\<open>safeMap\<close> belongs to the coercion of wrappers to keys (see \<open>getter\<close>).

  Two fields are history variables, which no function of the source reads and which
  \<open>reset\<close> leaves alone: \<open>trace\<close> records, for every comparison that \<^verbatim>\<open>inspect\<close>
  completes, the key stack at that moment and whether the comparison failed;
  \<open>probes\<close> records the heights of the three stacks wherever a callback asks for it.
\<close>

record 'c state =
  valuesStack :: "'c jsval list"
  funnel :: "'c jsval list"
  path :: "prim list"
  errorPath :: "prim list option"
  validatorDepth :: int
  safeDepth :: int
  started :: bool
  finished :: bool
  trace :: "(prim list \<times> bool) list"
  probes :: "(nat \<times> nat \<times> nat) list"

text \<open>The messages of the errors that the library throws.\<close>

datatype message =
    CannotProceed \<comment> \<open>Cannot proceed with validation after an error\<close>
  | CatchOtherNotFunction \<comment> \<open>The catch-other callback must be a function\<close>
  | ShapeErrorNotValid \<comment> \<open>The shape error must be a non-function truthy value\<close>
  | NotExpectedInObjectSchema symbol \<comment> \<open>... is not expected in an object schema\<close>
  | NotExpectedInArraySchema symbol \<comment> \<open>... is not expected in an array schema\<close>
  | MoreThanTwoAfterEnd \<comment> \<open>Found more than 2 elements after the end-of-array marker\<close>
  | MultipleEnds \<comment> \<open>Encountered multiple end-of-array markers\<close>
  | MultipleCatchOthers \<comment> \<open>Encountered multiple catch-other callbacks\<close>
  | MultipleShapeErrors \<comment> \<open>Encountered multiple shape error values\<close>
  | ShapeErrorFalsy \<comment> \<open>Shape error must be a truthy value\<close>
  | UseInstance \<comment> \<open>To validate another value, use nonvalid.instance()\<close>
  | NoValueOutside \<comment> \<open>Validator called with no value outside of any context\<close>
  | RootOutside \<comment> \<open>root() called outside of any object or array\<close>
  | UpAbove \<comment> \<open>up() call navigates above any object or array\<close>
  | ValueOutside \<comment> \<open>value() called outside of any context\<close>
  | KeyOutside \<comment> \<open>key() called outside of any context\<close>
  | KeyObjectsOnly \<comment> \<open>key() can be called for objects only\<close>
  | IndexOutside \<comment> \<open>index() called outside of any context\<close>
  | IndexArraysOnly \<comment> \<open>index() can be called for arrays only\<close>
  | PathAfter \<comment> \<open>path() called after validation\<close>
  | PathBefore \<comment> \<open>path() called before validation\<close>
  | ErrorPathBefore \<comment> \<open>errorPath() called before validation is completed\<close>
  | MatcherArguments \<comment> \<open>Matchers are supposed to be run with exactly one or no arguments\<close>
  | NoTraversal \<comment> \<open>Callback didn't perform traversal or didn't return its result\<close>
  | MatcherOutside key \<comment> \<open>name() called without arguments outside of any context\<close>

text \<open>
  What a call can raise: an error of the library, an error thrown by the user's callback,
  the \<^verbatim>\<open>TypeError\<close> of the language (a property read on \<^verbatim>\<open>undefined\<close> or
  \<^verbatim>\<open>null\<close>), and \<open>Unmodelled\<close>, by which the callback language below marks the
  one construct it does not follow (a call of a function value that is not written
  at the place of the call).
\<close>

datatype exn = Error message | Thrown string | TypeError | Unmodelled

type_synonym ('c, 'a) outcome = "(exn + 'a) \<times> 'c state"

type_synonym 'c caller = "'c \<Rightarrow> 'c jsval \<Rightarrow> 'c jsval \<Rightarrow> 'c state \<Rightarrow> ('c, 'c jsval) outcome"

type_synonym 'c inspector = "'c jsval \<Rightarrow> 'c jsval \<Rightarrow> 'c state \<Rightarrow> ('c, 'c jsval) outcome"

definition basicReset :: "bool \<Rightarrow> 'c state \<Rightarrow> 'c state" where
  "basicReset final st = st\<lparr>started := False, finished := final\<rparr>"

definition reset :: "bool \<Rightarrow> 'c state \<Rightarrow> 'c state" where
  "reset final st =
     basicReset final
       (st\<lparr>valuesStack := [], funnel := [], path := [], errorPath := None,
           validatorDepth := 0, safeDepth := 0\<rparr>)"

text \<open>The state of a new instance: \<^verbatim>\<open>reset(false)\<close> (line 52), with empty histories.\<close>

definition newInstance :: "'c state" where
  "newInstance =
     \<lparr>valuesStack = [], funnel = [], path = [], errorPath = None, validatorDepth = 0,
      safeDepth = 0, started = False, finished = False, trace = [], probes = []\<rparr>"

definition resetAndThrow :: "message \<Rightarrow> 'c state \<Rightarrow> ('c, 'a) outcome" where
  "resetAndThrow error st = (Inl (Error error), reset True st)"

definition currentValue :: "'c state \<Rightarrow> 'c jsval" where
  "currentValue st = (if valuesStack st = [] then undefined_v else last (valuesStack st))"

definition currentKey :: "'c state \<Rightarrow> 'c jsval" where
  "currentKey st = (if path st = [] then undefined_v else VPrim (last (path st)))"

section \<open>The traversal (lines 59--244)\<close>

text \<open>
  The callbacks are the user's code. The traversal takes the way a callback is run as a
  parameter \<open>call\<close>: the callback, its two arguments and the state give an outcome and
  the state the callback leaves (a callback may call back into the instance).
  \<^verbatim>\<open>callback(value, currentKey()) || false\<close> is the value itself when truthy.
\<close>

definition run :: "'c caller \<Rightarrow> 'c \<Rightarrow> 'c jsval \<Rightarrow> 'c state \<Rightarrow> ('c, 'c jsval) outcome" where
  "run call callback v st =
     (let st1 = st\<lparr>valuesStack := valuesStack st @ [v]\<rparr> in
      case call callback v (currentKey st1) st1 of
        (Inl e, st2) \<Rightarrow> (Inl e, if finished st2 then st2 else reset True st2)
      | (Inr r, st2) \<Rightarrow>
          if finished st2 then (Inl (Error CannotProceed), st2)
          else (Inr (if truthy r then r else false_v),
                st2\<lparr>valuesStack := butlast (valuesStack st2)\<rparr>))"

fun isSpecialSymbol :: "'c jsval \<Rightarrow> bool" where
  "isSpecialSymbol (VPrim (PSymbol y)) = (y \<in> set symbolList)"
| "isSpecialSymbol _ = False"

fun symbolOf :: "'c jsval \<Rightarrow> symbol" where
  "symbolOf (VPrim (PSymbol y)) = y"
| "symbolOf _ = SymEnd"

fun symbolOfKey :: "key \<Rightarrow> symbol" where
  "symbolOfKey (KSym y) = y"
| "symbolOfKey (KStr s) = SymEnd"

definition validateObjectSchema ::
  "'c jsval \<Rightarrow> 'c state \<Rightarrow> ('c, 'c jsval \<times> 'c jsval) outcome" where
  "validateObjectSchema schema st =
     (let catchOther = getProp schema (KSym SymOther) in
      if \<not> matchers_undefined catchOther \<and> \<not> matchers_function catchOther
      then resetAndThrow CatchOtherNotFunction st
      else
        let shapeError = getProp schema (KSym SymError) in
        if matchers_defined shapeError \<and> (matchers_function shapeError \<or> \<not> truthy shapeError)
        then resetAndThrow ShapeErrorNotValid st
        else
          (case find (\<lambda>k. k \<noteq> KSym SymOther \<and> k \<noteq> KSym SymError
                            \<and> symbolOfKey k \<in> set symbolList)
                  (map fst (ownPropertySymbols (ownProperties schema))) of
             Some k \<Rightarrow> resetAndThrow (NotExpectedInObjectSchema (symbolOfKey k)) st
           | None \<Rightarrow> (Inr (catchOther, shapeError), st)))"

definition inspectKey ::
  "'c inspector \<Rightarrow> 'c jsval \<Rightarrow> 'c jsval \<Rightarrow> prim \<Rightarrow> 'c state \<Rightarrow> ('c, 'c jsval) outcome" where
  "inspectKey insp schema v k st =
     (case insp schema v (st\<lparr>path := path st @ [k]\<rparr>) of
        (Inl e, st1) \<Rightarrow> (Inl e, st1)
      | (Inr error, st1) \<Rightarrow> (Inr error, st1\<lparr>path := butlast (path st1)\<rparr>))"

text \<open>
  The two loops of \<^verbatim>\<open>inspectObject\<close> (lines 99--107 and 108--118). A loop that runs to
  its end gives \<open>false_v\<close>, which no \<^verbatim>\<open>return\<close> inside the loops gives.
\<close>

fun inspectObject_schemaLoop ::
  "'c inspector \<Rightarrow> 'c jsval \<Rightarrow> (key \<times> 'c jsval) list \<Rightarrow> 'c state \<Rightarrow> ('c, 'c jsval) outcome" where
  "inspectObject_schemaLoop insp v [] st = (Inr false_v, st)"
| "inspectObject_schemaLoop insp v ((k, subschema) # rest) st =
     (if isSymbolKey k \<and> symbolOfKey k \<in> set symbolList
      then inspectObject_schemaLoop insp v rest st
      else
        (case inspectKey insp subschema (getProp v k) (primOfKey k) st of
           (Inl e, st1) \<Rightarrow> (Inl e, st1)
         | (Inr error, st1) \<Rightarrow>
             if truthy error then (Inr error, st1)
             else inspectObject_schemaLoop insp v rest st1))"

fun inspectObject_valueLoop ::
  "'c inspector \<Rightarrow> 'c jsval \<Rightarrow> 'c jsval \<Rightarrow> (key \<times> 'c jsval) list \<Rightarrow> 'c state
   \<Rightarrow> ('c, 'c jsval) outcome" where
  "inspectObject_valueLoop insp schema catchOther [] st = (Inr false_v, st)"
| "inspectObject_valueLoop insp schema catchOther ((k, subvalue) # rest) st =
     (if \<not> hasProperty schema k then
        (if matchers_undefined catchOther then (Inr true_v, st)
         else
           (case inspectKey insp catchOther subvalue (primOfKey k) st of
              (Inl e, st1) \<Rightarrow> (Inl e, st1)
            | (Inr error, st1) \<Rightarrow>
                if truthy error then (Inr error, st1)
                else inspectObject_valueLoop insp schema catchOther rest st1))
      else inspectObject_valueLoop insp schema catchOther rest st)"

definition inspectObject ::
  "'c inspector \<Rightarrow> 'c jsval \<Rightarrow> 'c jsval \<Rightarrow> 'c state \<Rightarrow> ('c, 'c jsval) outcome" where
  "inspectObject insp schema v st =
     (case validateObjectSchema schema st of
        (Inl e, st1) \<Rightarrow> (Inl e, st1)
      | (Inr (catchOther, shapeError), st1) \<Rightarrow>
          if \<not> matchers_object v
          then (Inr (if truthy shapeError then shapeError else true_v), st1)
          else
            (case inspectObject_schemaLoop insp v (allEntries schema) st1 of
               (Inl e, st2) \<Rightarrow> (Inl e, st2)
             | (Inr error, st2) \<Rightarrow>
                 if truthy error then (Inr error, st2)
                 else inspectObject_valueLoop insp schema catchOther (allEntries v) st2))"

text \<open>
  \<^verbatim>\<open>validateArraySchema\<close> (lines 122--157). Iterating a sparse array reads a hole as
  \<^verbatim>\<open>undefined\<close>. The loop of lines 137--155 runs over the slots after the first
  end-of-array marker (a hole also ends the regular part).
\<close>

fun slotValue :: "'c jsval option \<Rightarrow> 'c jsval" where
  "slotValue None = undefined_v"
| "slotValue (Some v) = v"

definition regularSlot :: "'c jsval option \<Rightarrow> bool" where
  "regularSlot slot = (slot \<noteq> None \<and> slot \<noteq> Some (VPrim (PSymbol SymEnd)))"

fun validateArraySchema_loop ::
  "'c jsval option list \<Rightarrow> 'c jsval \<Rightarrow> 'c jsval \<Rightarrow> 'c state \<Rightarrow> ('c, 'c jsval \<times> 'c jsval) outcome" where
  "validateArraySchema_loop [] functional truthyValue st = (Inr (functional, truthyValue), st)"
| "validateArraySchema_loop (slot # rest) functional truthyValue st =
     (if \<not> regularSlot slot then resetAndThrow MultipleEnds st
      else
        let v = slotValue slot in
        if matchers_function v then
          (if matchers_defined functional then resetAndThrow MultipleCatchOthers st
           else validateArraySchema_loop rest v truthyValue st)
        else if truthy v then
          (if matchers_defined truthyValue then resetAndThrow MultipleShapeErrors st
           else validateArraySchema_loop rest functional v st)
        else resetAndThrow ShapeErrorFalsy st)"

definition validateArraySchema ::
  "'c jsval option list \<Rightarrow> 'c state \<Rightarrow> ('c, nat \<times> 'c jsval \<times> 'c jsval) outcome" where
  "validateArraySchema schema st =
     (case find (\<lambda>v. matchers_symbol v \<and> v \<noteq> VPrim (PSymbol SymEnd) \<and> isSpecialSymbol v)
             (map slotValue schema) of
        Some v \<Rightarrow> resetAndThrow (NotExpectedInArraySchema (symbolOf v)) st
      | None \<Rightarrow>
          let endIndex = length (takeWhile regularSlot schema) in
          if length schema > endIndex + 3 then resetAndThrow MoreThanTwoAfterEnd st
          else
            (case validateArraySchema_loop (drop (endIndex + 1) schema) undefined_v undefined_v st of
               (Inl e, st1) \<Rightarrow> (Inl e, st1)
             | (Inr (functional, truthyValue), st1) \<Rightarrow>
                 (Inr (endIndex, functional, truthyValue), st1)))"

text \<open>The two loops of \<^verbatim>\<open>inspectArray\<close> (lines 164--169 and 170--178), over the indices.\<close>

fun inspectArray_schemaLoop ::
  "'c inspector \<Rightarrow> 'c jsval option list \<Rightarrow> 'c jsval option list \<Rightarrow> nat list \<Rightarrow> 'c state
   \<Rightarrow> ('c, 'c jsval) outcome" where
  "inspectArray_schemaLoop insp schema v [] st = (Inr false_v, st)"
| "inspectArray_schemaLoop insp schema v (index # rest) st =
     (case inspectKey insp (getIndex schema index) (getIndex v index) (PNum (Fin (int index))) st of
        (Inl e, st1) \<Rightarrow> (Inl e, st1)
      | (Inr error, st1) \<Rightarrow>
          if truthy error then (Inr error, st1)
          else inspectArray_schemaLoop insp schema v rest st1)"

fun inspectArray_valueLoop ::
  "'c inspector \<Rightarrow> 'c jsval \<Rightarrow> 'c jsval option list \<Rightarrow> nat list \<Rightarrow> 'c state
   \<Rightarrow> ('c, 'c jsval) outcome" where
  "inspectArray_valueLoop insp catchOther v [] st = (Inr false_v, st)"
| "inspectArray_valueLoop insp catchOther v (index # rest) st =
     (if matchers_undefined catchOther then (Inr true_v, st)
      else
        (case inspectKey insp catchOther (getIndex v index) (PNum (Fin (int index))) st of
           (Inl e, st1) \<Rightarrow> (Inl e, st1)
         | (Inr error, st1) \<Rightarrow>
             if truthy error then (Inr error, st1)
             else inspectArray_valueLoop insp catchOther v rest st1))"

fun arraySlots :: "'c jsval \<Rightarrow> 'c jsval option list" where
  "arraySlots (VArr sl) = sl"
| "arraySlots _ = []"

definition inspectArray ::
  "'c inspector \<Rightarrow> 'c jsval \<Rightarrow> 'c jsval \<Rightarrow> 'c state \<Rightarrow> ('c, 'c jsval) outcome" where
  "inspectArray insp schema v st =
     (case validateArraySchema (arraySlots schema) st of
        (Inl e, st1) \<Rightarrow> (Inl e, st1)
      | (Inr (maxIndex, catchOther, shapeError), st1) \<Rightarrow>
          if \<not> matchers_array v
          then (Inr (if truthy shapeError then shapeError else true_v), st1)
          else
            (case inspectArray_schemaLoop insp (arraySlots schema) (arraySlots v) [0..<maxIndex] st1 of
               (Inl e, st2) \<Rightarrow> (Inl e, st2)
             | (Inr error, st2) \<Rightarrow>
                 if truthy error then (Inr error, st2)
                 else inspectArray_valueLoop insp catchOther (arraySlots v)
                        [maxIndex..<length (arraySlots v)] st2))"

definition inspectDeeper ::
  "('c jsval \<Rightarrow> 'c jsval \<Rightarrow> 'c state \<Rightarrow> ('c, 'c jsval) outcome) \<Rightarrow> 'c jsval \<Rightarrow> 'c jsval \<Rightarrow> 'c state
   \<Rightarrow> ('c, 'c jsval) outcome" where
  "inspectDeeper inspector schema v st =
     (case inspector schema v (st\<lparr>funnel := funnel st @ [v]\<rparr>) of
        (Inl e, st1) \<Rightarrow> (Inl e, st1)
      | (Inr error, st1) \<Rightarrow> (Inr error, st1\<lparr>funnel := butlast (funnel st1)\<rparr>))"

text \<open>
  \<^verbatim>\<open>doInspect\<close> (lines 189--199). The cases are the tests of the source in their order:
  a function, an object (plain or proxy), an array, and otherwise a literal, which by
  then is a primitive.
\<close>

definition doInspect ::
  "'c inspector \<Rightarrow> 'c caller \<Rightarrow> 'c jsval \<Rightarrow> 'c jsval \<Rightarrow> 'c state \<Rightarrow> ('c, 'c jsval) outcome" where
  "doInspect insp call schema v st =
     (case schema of
        VFun n callback \<Rightarrow> run call callback v st
      | VObj es ih \<Rightarrow> inspectDeeper (inspectObject insp) schema v st
      | VWrap w \<Rightarrow> inspectDeeper (inspectObject insp) schema v st
      | VArr sl \<Rightarrow> inspectDeeper (inspectArray insp) schema v st
      | VPrim p \<Rightarrow> (Inr (VPrim (PBool (\<not> strictEqPrim v p))), st))"

text \<open>The schemas one level below a schema: the only ones the traversal descends into.\<close>

fun subschemas :: "'c jsval \<Rightarrow> 'c jsval set" where
  "subschemas (VObj es ih) = snd ` set es \<union> snd ` set ih"
| "subschemas (VArr sl) = {s. Some s \<in> set sl}"
| "subschemas _ = {}"

text \<open>
  \<^verbatim>\<open>inspect\<close> calls itself through \<^verbatim>\<open>doInspect\<close>, the two inspectors and
  \<^verbatim>\<open>inspectKey\<close>, always on a schema one level below. The lemmas up to
  \<open>doInspect_cong\<close> establish that, so that the recursion is accepted.
\<close>
lemma inspectKey_cong_aux:
  "(\<And>w s. insp schema w s = insp' schema w s) \<Longrightarrow> inspectKey insp schema v k st = inspectKey insp' schema v k st"
  by (simp add: inspectKey_def)

lemma inspectObject_schemaLoop_cong_aux:
  "(\<And>k sub w s. (k, sub) \<in> set entries \<Longrightarrow> insp sub w s = insp' sub w s) \<Longrightarrow>
   inspectObject_schemaLoop insp v entries st = inspectObject_schemaLoop insp' v entries st"
proof (induction entries arbitrary: st)
  case Nil
  then show ?case by simp
next
  case (Cons e entries)
  obtain k sub where e: "e = (k, sub)" by (cases e)
  have a: "inspectKey insp sub (getProp v k) (primOfKey k) st = inspectKey insp' sub (getProp v k) (primOfKey k) st"
    by (rule inspectKey_cong_aux) (use Cons.prems[of k sub] e in simp)
  have b: "\<And>s. inspectObject_schemaLoop insp v entries s = inspectObject_schemaLoop insp' v entries s"
    by (rule Cons.IH) (use Cons.prems in auto)
  show ?case by (simp add: e a b split: prod.splits sum.splits)
qed

lemma inspectObject_valueLoop_cong_aux:
  "(\<And>w s. \<not> matchers_undefined catchOther \<Longrightarrow> insp catchOther w s = insp' catchOther w s) \<Longrightarrow>
   inspectObject_valueLoop insp schema catchOther entries st
   = inspectObject_valueLoop insp' schema catchOther entries st"
proof (induction entries arbitrary: st)
  case Nil
  then show ?case by simp
next
  case (Cons e entries)
  obtain k sub where e: "e = (k, sub)" by (cases e)
  have b: "\<And>s. inspectObject_valueLoop insp schema catchOther entries s
              = inspectObject_valueLoop insp' schema catchOther entries s"
    by (rule Cons.IH) (simp add: Cons.prems)
  show ?case
  proof (cases "matchers_undefined catchOther")
    case True
    then show ?thesis by (simp add: e b)
  next
    case False
    have a: "inspectKey insp catchOther sub (primOfKey k) st = inspectKey insp' catchOther sub (primOfKey k) st"
      by (rule inspectKey_cong_aux) (simp add: Cons.prems False)
    show ?thesis by (simp add: e a b split: prod.splits sum.splits)
  qed
qed

lemma inspectObject_valueLoop_undefined:
  "inspectObject_valueLoop insp schema undefined_v l s = inspectObject_valueLoop insp' schema undefined_v l s"
  by (rule inspectObject_valueLoop_cong_aux) simp

lemma set_allEntries: "set (allEntries (VObj es ih)) \<subseteq> set es"
  by (auto simp: allEntries_def objectEntries_def ownPropertySymbols_def)

lemma getProp_in_subschemas:
  "\<not> matchers_undefined (getProp (VObj es ih) k) \<Longrightarrow>
   getProp (VObj es ih) k \<in> subschemas (VObj es ih)"
  by (auto split: option.splits dest!: map_of_SomeD intro: rev_image_eqI)

lemma validateObjectSchema_VWrap: "\<exists>e s. validateObjectSchema (VWrap w) st = (Inl e, s)"
  by (auto simp: validateObjectSchema_def resetAndThrow_def Let_def split: jsval.splits)

lemma validateObjectSchema_catchOther:
  "validateObjectSchema schema st = (Inr (catchOther, shapeError), st1) \<Longrightarrow>
   catchOther = getProp schema (KSym SymOther)"
  by (auto simp: validateObjectSchema_def resetAndThrow_def Let_def split: if_splits option.splits)

lemma inspectObject_cong_aux:
  assumes "\<And>sub w s. sub \<in> subschemas schema \<Longrightarrow> insp sub w s = insp' sub w s"
  shows "inspectObject insp schema v st = inspectObject insp' schema v st"
proof (cases schema)
  case (VObj es ih)
  have a: "\<And>s. inspectObject_schemaLoop insp v (allEntries schema) s
             = inspectObject_schemaLoop insp' v (allEntries schema) s"
    apply (rule inspectObject_schemaLoop_cong_aux)
    apply (rule assms)
    using set_allEntries[of es ih] VObj by (auto intro: rev_image_eqI)
  have b: "\<And>s l. inspectObject_valueLoop insp schema (getProp schema (KSym SymOther)) l s
            = inspectObject_valueLoop insp' schema (getProp schema (KSym SymOther)) l s"
    apply (rule inspectObject_valueLoop_cong_aux)
    apply (rule assms)
    using getProp_in_subschemas VObj by blast
  show ?thesis
    unfolding inspectObject_def
    by (auto simp: a b split: prod.splits sum.splits dest: validateObjectSchema_catchOther)
next
  case (VWrap w)
  then show ?thesis
    using validateObjectSchema_VWrap[of w st] by (auto simp: inspectObject_def)
next
  case (VPrim p)
  show ?thesis
    unfolding inspectObject_def using VPrim
    by (auto simp: inspectObject_valueLoop_undefined allEntries_def objectEntries_def ownPropertySymbols_def
        split: prod.splits sum.splits dest!: validateObjectSchema_catchOther)
next
  case (VFun n c)
  show ?thesis
    unfolding inspectObject_def using VFun
    by (auto simp: inspectObject_valueLoop_undefined allEntries_def objectEntries_def ownPropertySymbols_def
        split: prod.splits sum.splits dest!: validateObjectSchema_catchOther)
next
  case (VArr sl)
  show ?thesis
    unfolding inspectObject_def using VArr
    by (auto simp: inspectObject_valueLoop_undefined allEntries_def objectEntries_def ownPropertySymbols_def
        split: prod.splits sum.splits dest!: validateObjectSchema_catchOther)
qed


lemma inspectArray_schemaLoop_cong_aux:
  "(\<And>i w s. i \<in> set indices \<Longrightarrow> insp (getIndex schema i) w s = insp' (getIndex schema i) w s) \<Longrightarrow>
   inspectArray_schemaLoop insp schema v indices st = inspectArray_schemaLoop insp' schema v indices st"
proof (induction indices arbitrary: st)
  case Nil
  then show ?case by simp
next
  case (Cons i indices)
  have a: "inspectKey insp (getIndex schema i) (getIndex v i) (PNum (Fin (int i))) st
         = inspectKey insp' (getIndex schema i) (getIndex v i) (PNum (Fin (int i))) st"
    by (rule inspectKey_cong_aux) (use Cons.prems[of i] in simp)
  have b: "\<And>s. inspectArray_schemaLoop insp schema v indices s = inspectArray_schemaLoop insp' schema v indices s"
    by (rule Cons.IH) (use Cons.prems in auto)
  show ?case by (simp add: a b split: prod.splits sum.splits)
qed

lemma inspectArray_valueLoop_cong_aux:
  "(\<And>w s. \<not> matchers_undefined catchOther \<Longrightarrow> insp catchOther w s = insp' catchOther w s) \<Longrightarrow>
   inspectArray_valueLoop insp catchOther v indices st = inspectArray_valueLoop insp' catchOther v indices st"
proof (induction indices arbitrary: st)
  case Nil
  then show ?case by simp
next
  case (Cons i indices)
  have b: "\<And>s. inspectArray_valueLoop insp catchOther v indices s = inspectArray_valueLoop insp' catchOther v indices s"
    by (rule Cons.IH) (use Cons.prems in auto)
  show ?case
  proof (cases "matchers_undefined catchOther")
    case True
    then show ?thesis by simp
  next
    case False
    have a: "inspectKey insp catchOther (getIndex v i) (PNum (Fin (int i))) st
           = inspectKey insp' catchOther (getIndex v i) (PNum (Fin (int i))) st"
      by (rule inspectKey_cong_aux) (simp add: Cons.prems False)
    show ?thesis by (simp add: a b split: prod.splits sum.splits)
  qed
qed

lemma validateArraySchema_loop_functional:
  "validateArraySchema_loop sl f t st = (Inr (f', t'), st1) \<Longrightarrow>
   f' = f \<or> Some f' \<in> set sl"
proof (induction sl arbitrary: f t)
  case Nil
  then show ?case by simp
next
  case (Cons slot sl)
  show ?case
  proof (cases slot)
    case None
    then show ?thesis using Cons.prems by (simp add: regularSlot_def resetAndThrow_def)
  next
    case (Some x)
    then show ?thesis using Cons.prems Cons.IH
      by (fastforce simp: Let_def resetAndThrow_def split: if_splits)
  qed
qed

lemma validateArraySchema_Inr:
  assumes "validateArraySchema sl st = (Inr (maxIndex, catchOther, shapeError), st1)"
  shows "maxIndex = length (takeWhile regularSlot sl)"
    and "matchers_undefined catchOther \<or> Some catchOther \<in> set sl"
proof -
  from assms obtain st0 where
    m: "maxIndex = length (takeWhile regularSlot sl)" and
    l: "validateArraySchema_loop (drop (maxIndex + 1) sl) undefined_v undefined_v st
          = (Inr (catchOther, shapeError), st0)"
    by (auto simp: validateArraySchema_def Let_def resetAndThrow_def
        split: option.splits if_splits prod.splits sum.splits)
  show "maxIndex = length (takeWhile regularSlot sl)" by (rule m)
  from validateArraySchema_loop_functional[OF l]
  show "matchers_undefined catchOther \<or> Some catchOther \<in> set sl"
    by (auto dest: in_set_dropD)
qed

lemma regular_getIndex:
  "i < length (takeWhile regularSlot sl) \<Longrightarrow> Some (getIndex sl i) \<in> set sl"
proof -
  assume a: "i < length (takeWhile regularSlot sl)"
  then have l: "i < length sl" using length_takeWhile_le[of regularSlot sl] by simp
  from a have "regularSlot (takeWhile regularSlot sl ! i)"
    using nth_mem set_takeWhileD by metis
  then have "regularSlot (sl ! i)" using a by (simp add: takeWhile_nth)
  then have "sl ! i = Some (getIndex sl i)"
    using l by (auto simp: regularSlot_def getIndex_def split: option.splits)
  then show ?thesis using l by (metis nth_mem)
qed

lemma inspectArray_cong_aux:
  assumes "\<And>sub w s. sub \<in> subschemas schema \<Longrightarrow> insp sub w s = insp' sub w s"
  shows "inspectArray insp schema v st = inspectArray insp' schema v st"
proof (cases "validateArraySchema (arraySlots schema) st")
  case (Pair r st1)
  show ?thesis
  proof (cases r)
    case (Inl e)
    then show ?thesis using Pair by (simp add: inspectArray_def)
  next
    case (Inr t)
    obtain maxIndex catchOther shapeError where t: "t = (maxIndex, catchOther, shapeError)"
      by (cases t)
    note v = validateArraySchema_Inr[OF Pair[unfolded Inr t]]
    have sub: "\<And>x. Some x \<in> set (arraySlots schema) \<Longrightarrow> x \<in> subschemas schema"
      by (cases schema) auto
    have a: "\<And>s. inspectArray_schemaLoop insp (arraySlots schema) (arraySlots v) [0..<maxIndex] s
               = inspectArray_schemaLoop insp' (arraySlots schema) (arraySlots v) [0..<maxIndex] s"
      apply (rule inspectArray_schemaLoop_cong_aux)
      apply (rule assms)
      apply (rule sub)
      apply (rule regular_getIndex)
      using v(1) by simp
    have b: "\<And>s l. inspectArray_valueLoop insp catchOther (arraySlots v) l s
               = inspectArray_valueLoop insp' catchOther (arraySlots v) l s"
      apply (rule inspectArray_valueLoop_cong_aux)
      apply (rule assms)
      using v(2) sub by blast
    show ?thesis
      using Pair Inr t by (simp add: inspectArray_def a b split: prod.splits sum.splits)
  qed
qed

lemma doInspect_cong [fundef_cong]:
  assumes "call = call'" "schema = schema'" "v = v'" "st = st'"
    and "\<And>sub w s. sub \<in> subschemas schema' \<Longrightarrow> insp sub w s = insp' sub w s"
  shows "doInspect insp call schema v st = doInspect insp' call' schema' v' st'"
proof -
  have o: "inspectObject insp schema' = inspectObject insp' schema'"
    by (intro ext inspectObject_cong_aux assms(5))
  have a: "inspectArray insp schema' = inspectArray insp' schema'"
    by (intro ext inspectArray_cong_aux assms(5))
  show ?thesis
    unfolding doInspect_def inspectDeeper_def assms(1-4) o a by (rule refl)
qed

lemma subschemas_size: "sub \<in> subschemas schema \<Longrightarrow> size sub < size schema"
proof (cases schema)
  case (VObj es ih)
  assume "sub \<in> subschemas schema"
  then have "\<exists>k. (k, sub) \<in> set es \<or> (k, sub) \<in> set ih" using VObj by auto
  then obtain k where "(k, sub) \<in> set es \<or> (k, sub) \<in> set ih" by blast
  then have "size_prod (\<lambda>x. 0) size (k, sub) \<le> size_list (size_prod (\<lambda>x. 0) size) es
      \<or> size_prod (\<lambda>x. 0) size (k, sub) \<le> size_list (size_prod (\<lambda>x. 0) size) ih"
    by (auto simp: size_list_estimation')
  then show ?thesis using VObj by auto
next
  case (VArr sl)
  assume "sub \<in> subschemas schema"
  then have "Some sub \<in> set sl" using VArr by simp
  then have "size_option size (Some sub) \<le> size_list (size_option size) sl"
    by (simp add: size_list_estimation')
  then show ?thesis using VArr by simp
qed auto

text \<open>
  \<^verbatim>\<open>inspect\<close> (lines 208--218): a failing comparison latches the key stack unless one is
  latched, a successful one clears the latch. The last update is the history variable.
\<close>

function inspect :: "'c caller \<Rightarrow> 'c jsval \<Rightarrow> 'c jsval \<Rightarrow> 'c state \<Rightarrow> ('c, 'c jsval) outcome" where
  "inspect call schema v st =
     (case doInspect (inspect call) call schema v st of
        (Inl e, st1) \<Rightarrow> (Inl e, st1)
      | (Inr error, st1) \<Rightarrow>
          (Inr error,
           (if truthy error
            then (if errorPath st1 = None then st1\<lparr>errorPath := Some (path st1)\<rparr> else st1)
            else st1\<lparr>errorPath := None\<rparr>)
           \<lparr>trace := trace st1 @ [(path st1, truthy error)]\<rparr>))"
  by pat_completeness auto
termination
  by (relation "measure (\<lambda>(call, schema, v, st). size schema)") (auto simp: subschemas_size)

declare inspect.simps [simp del]

text \<open>
  The validator itself (lines 220--244), called with the list of its arguments: with two
  or more, the value and the schema; otherwise the schema alone (\<^verbatim>\<open>undefined\<close> when
  there is none), the value being the current one.
\<close>

definition argSchema :: "'c jsval list \<Rightarrow> 'c jsval" where
  "argSchema args = (if length args > 1 then args ! 1 else if args = [] then undefined_v else args ! 0)"

definition validator :: "'c caller \<Rightarrow> 'c jsval list \<Rightarrow> 'c state \<Rightarrow> ('c, 'c jsval) outcome" where
  "validator call args st =
     (if validatorDepth st = 0 \<and> finished st then resetAndThrow UseInstance st
      else
        let st1 = (if validatorDepth st = 0 then st\<lparr>started := True\<rparr> else st);
            st2 = st1\<lparr>validatorDepth := validatorDepth st1 + 1\<rparr>
        in
        if \<not> length args > 1 \<and> valuesStack st2 = [] then resetAndThrow NoValueOutside st2
        else
          let schema = argSchema args;
              v = (if length args > 1 then args ! 0 else currentValue st2)
          in
          (case inspect call schema v st2 of
             (Inl e, st3) \<Rightarrow> (Inl e, st3)
           | (Inr error, st3) \<Rightarrow>
               let st4 = st3\<lparr>validatorDepth := validatorDepth st3 - 1\<rparr> in
               (Inr error, if validatorDepth st4 = 0 then basicReset True st4 else st4)))"

text \<open>
  The traversal runs only callbacks that occur in the schema (\<open>set_jsval\<close> collects
  them), which is what lets a callback call the validator on a schema written inside it.
\<close>

lemma doInspect_cong_call:
  assumes "\<And>n c w k s. schema = VFun n c \<Longrightarrow> call c w k s = call' c w k s"
    and "\<And>sub w s. sub \<in> subschemas schema \<Longrightarrow> insp sub w s = insp' sub w s"
  shows "doInspect insp call schema v st = doInspect insp' call' schema v st"
proof -
  have "doInspect insp call schema v st = doInspect insp call' schema v st"
    using assms(1) by (auto simp: doInspect_def run_def split: jsval.splits)
  also have "\<dots> = doInspect insp' call' schema v st"
    by (rule doInspect_cong) (simp_all add: assms(2))
  finally show ?thesis .
qed

lemma subschemas_callbacks: "sub \<in> subschemas schema \<Longrightarrow> set_jsval sub \<subseteq> set_jsval schema"
proof (cases schema)
  case (VObj es ih)
  assume "sub \<in> subschemas schema"
  then have "\<exists>k. (k, sub) \<in> set es \<or> (k, sub) \<in> set ih" using VObj by auto
  then obtain k where "(k, sub) \<in> set es \<or> (k, sub) \<in> set ih" by blast
  then show ?thesis using VObj by force
next
  case (VArr sl)
  assume "sub \<in> subschemas schema"
  then have "Some sub \<in> set sl" using VArr by simp
  then show ?thesis using VArr by force
qed auto

lemma inspect_cong_call:
  "(\<And>c w k s. c \<in> set_jsval schema \<Longrightarrow> call c w k s = call' c w k s) \<Longrightarrow>
   inspect call schema v st = inspect call' schema v st"
proof (induction call schema v st rule: inspect.induct)
  case (1 call schema v st)
  have "doInspect (inspect call) call schema v st = doInspect (inspect call') call' schema v st"
  proof (rule doInspect_cong_call)
    fix n c w k s assume "schema = VFun n c"
    then show "call c w k s = call' c w k s" using "1.prems"[of c] by simp
  next
    fix sub w s assume s: "sub \<in> subschemas schema"
    show "inspect call sub w s = inspect call' sub w s"
      by (rule "1.IH"[OF s]) (use subschemas_callbacks[OF s] "1.prems" in blast)
  qed
  then show ?case by (simp add: inspect.simps[of call] inspect.simps[of call'])
qed

lemma validator_cong [fundef_cong]:
  assumes "args = args'" "st = st'"
    and "\<And>c w k s. c \<in> set_jsval (argSchema args') \<Longrightarrow> call c w k s = call' c w k s"
  shows "validator call args st = validator call' args' st'"
proof -
  have eq: "inspect call (argSchema args') = inspect call' (argSchema args')"
    by (intro ext inspect_cong_call assms(3))
  show ?thesis unfolding validator_def assms(1,2) Let_def eq by (rule refl)
qed

lemma callbacks_size: "c \<in> set_jsval j \<Longrightarrow> f c < size_jsval f j"
proof (induction j)
  case (VObj es ih)
  from VObj.prems have "\<exists>k sub. ((k, sub) \<in> set es \<or> (k, sub) \<in> set ih) \<and> c \<in> set_jsval sub"
    by fastforce
  then obtain k sub where m: "(k, sub) \<in> set es \<or> (k, sub) \<in> set ih"
    and c: "c \<in> set_jsval sub" by blast
  have "f c < size_jsval f sub" using VObj.IH(1)[of "(k, sub)" sub] VObj.IH(2)[of "(k, sub)" sub] m c by auto
  moreover have "size_prod (\<lambda>x. 0) (size_jsval f) (k, sub) \<le> size_list (size_prod (\<lambda>x. 0) (size_jsval f)) es
      \<or> size_prod (\<lambda>x. 0) (size_jsval f) (k, sub) \<le> size_list (size_prod (\<lambda>x. 0) (size_jsval f)) ih"
    using m by (auto simp: size_list_estimation')
  ultimately show ?case by auto
next
  case (VArr sl)
  then obtain sub where m: "Some sub \<in> set sl" and c: "c \<in> set_jsval sub" by auto
  have "f c < size_jsval f sub" using VArr.IH[of "Some sub" sub] m c by simp
  moreover have "size_option (size_jsval f) (Some sub) \<le> size_list (size_option (size_jsval f)) sl"
    using m by (simp add: size_list_estimation')
  ultimately show ?case by simp
qed auto


section \<open>Navigation and paths (lines 246--371)\<close>

text \<open>
  \<^verbatim>\<open>wrapIfSafe\<close> (lines 246--289): in deferred mode the value is handed out inside a
  proxy, whose \<^verbatim>\<open>get\<close> trap is \<open>getter\<close>.
\<close>

definition wrapIfSafe :: "'c jsval \<Rightarrow> 'c state \<Rightarrow> 'c jsval" where
  "wrapIfSafe v st = (if safeDepth st > 0 then VWrap v else v)"

definition validator_root :: "'c state \<Rightarrow> ('c, 'c jsval) outcome" where
  "validator_root st =
     (if length (funnel st) = 0 then resetAndThrow RootOutside st
      else (Inr (wrapIfSafe (funnel st ! 0) st), st))"

definition validator_up :: "int \<Rightarrow> 'c state \<Rightarrow> ('c, 'c jsval) outcome" where
  "validator_up levels st =
     (if int (length (funnel st)) \<le> levels then resetAndThrow UpAbove st
      else
        let i = int (length (funnel st)) - 1 - levels in
        (Inr (wrapIfSafe (if 0 \<le> i \<and> i < int (length (funnel st)) then funnel st ! nat i
                          else undefined_v) st), st))"

definition validator_value :: "'c state \<Rightarrow> ('c, 'c jsval) outcome" where
  "validator_value st =
     (if length (valuesStack st) = 0 then resetAndThrow ValueOutside st
      else (Inr (wrapIfSafe (currentValue st) st), st))"

definition validator_key :: "'c state \<Rightarrow> ('c, 'c jsval) outcome" where
  "validator_key st =
     (let result = currentKey st in
      if matchers_undefined result then resetAndThrow KeyOutside st
      else if \<not> matchers_string result \<and> \<not> matchers_symbol result
      then resetAndThrow KeyObjectsOnly st
      else (Inr result, st))"

definition validator_index :: "'c state \<Rightarrow> ('c, 'c jsval) outcome" where
  "validator_index st =
     (let result = currentKey st in
      if matchers_undefined result then resetAndThrow IndexOutside st
      else if \<not> matchers_number result then resetAndThrow IndexArraysOnly st
      else (Inr result, st))"

text \<open>
  \<^verbatim>\<open>path()\<close> and \<^verbatim>\<open>errorPath()\<close> without a root name (\<^verbatim>\<open>formatPath\<close> then copies the
  array); these two throw without resetting.
\<close>

definition validator_path :: "'c state \<Rightarrow> ('c, prim list) outcome" where
  "validator_path st =
     (if finished st then (Inl (Error PathAfter), st)
      else if \<not> started st then (Inl (Error PathBefore), st)
      else (Inr (path st), st))"

definition validator_errorPath :: "'c state \<Rightarrow> ('c, prim list option) outcome" where
  "validator_errorPath st =
     (if \<not> finished st then (Inl (Error ErrorPathBefore), st)
      else (Inr (errorPath st), st))"

section \<open>Matchers (lines 373--402)\<close>

text \<open>
  \<^verbatim>\<open>enhanceMatcher\<close> (lines 373--399). \<open>invoke f\<close> is the call \<^verbatim>\<open>value()\<close> of the function
  passed as the argument; \<^verbatim>\<open>finally\<close> decrements \<^verbatim>\<open>safeDepth\<close> on both ways out.
\<close>

definition enhanceMatcher ::
  "('c jsval \<Rightarrow> 'c jsval) \<Rightarrow> key \<Rightarrow> ('c jsval \<Rightarrow> 'c state \<Rightarrow> ('c, 'c jsval) outcome)
   \<Rightarrow> 'c jsval list \<Rightarrow> 'c state \<Rightarrow> ('c, 'c jsval) outcome" where
  "enhanceMatcher matcher name invoke args st =
     (if length args > 1 then (Inl (Error MatcherArguments), st)
      else if length args = 1 then
        let v = args ! 0 in
        if length (valuesStack st) > 0 \<and> matchers_function v \<and> \<not> sameFunction (currentValue st) v
        then
          (case invoke v (st\<lparr>safeDepth := safeDepth st + 1\<rparr>) of
             (Inl e, st1) \<Rightarrow> (Inl e, st1\<lparr>safeDepth := safeDepth st1 - 1\<rparr>)
           | (Inr r, st1) \<Rightarrow>
               let st2 = st1\<lparr>safeDepth := safeDepth st1 - 1\<rparr> in
               if \<not> matchers_object r \<or> \<not> hasProperty r (KSym SymUnwrap)
               then resetAndThrow NoTraversal st2
               else (Inr (matcher (getProp r (KSym SymUnwrap))), st2))
        else (Inr (matcher v), st)
      else if length (valuesStack st) = 0 then (Inl (Error (MatcherOutside name)), st)
      else (Inr (matcher (currentValue st)), st))"

datatype builtin =
    M_number | M_string | M_boolean | M_null | M_undefined | M_defined | M_bigint
  | M_symbol | M_function | M_array | M_object | M_get

fun builtinMatcher :: "builtin \<Rightarrow> 'c jsval \<Rightarrow> 'c jsval" where
  "builtinMatcher M_number v = VPrim (PBool (matchers_number v))"
| "builtinMatcher M_string v = VPrim (PBool (matchers_string v))"
| "builtinMatcher M_boolean v = VPrim (PBool (matchers_boolean v))"
| "builtinMatcher M_null v = VPrim (PBool (matchers_null v))"
| "builtinMatcher M_undefined v = VPrim (PBool (matchers_undefined v))"
| "builtinMatcher M_defined v = VPrim (PBool (matchers_defined v))"
| "builtinMatcher M_bigint v = VPrim (PBool (matchers_bigint v))"
| "builtinMatcher M_symbol v = VPrim (PBool (matchers_symbol v))"
| "builtinMatcher M_function v = VPrim (PBool (matchers_function v))"
| "builtinMatcher M_array v = VPrim (PBool (matchers_array v))"
| "builtinMatcher M_object v = VPrim (PBool (matchers_object v))"
| "builtinMatcher M_get v = matchers_get v"

fun builtinName :: "builtin \<Rightarrow> key" where
  "builtinName M_number = KStr ''number''"
| "builtinName M_string = KStr ''string''"
| "builtinName M_boolean = KStr ''boolean''"
| "builtinName M_null = KStr ''null''"
| "builtinName M_undefined = KStr ''undefined''"
| "builtinName M_defined = KStr ''defined''"
| "builtinName M_bigint = KStr ''bigint''"
| "builtinName M_symbol = KStr ''symbol''"
| "builtinName M_function = KStr ''function''"
| "builtinName M_array = KStr ''array''"
| "builtinName M_object = KStr ''object''"
| "builtinName M_get = KStr ''get''"

section \<open>Callbacks\<close>

text \<open>
  The callbacks are written in a small language of expressions, enough for the callbacks
  of the documentation and of the tests: constants, the two parameters, comparison with
  a primitive, the logical operators, sequencing, \<^verbatim>\<open>throw\<close> and \<^verbatim>\<open>try/catch\<close>,
  calls of the validator on a schema written in place (\<open>Nv1\<close> is \<^verbatim>\<open>nv(schema)\<close>,
  \<open>Nv2\<close> is \<^verbatim>\<open>nv(e, schema)\<close>), the navigation calls, property reads, and calls of the
  built-in matchers without argument, with a value, or with a function written in place
  (\<open>MatchFn m n body\<close> is \<^verbatim>\<open>nv.m(() => body)\<close>, \<open>n\<close> being the identity of the function).
  \<open>Probe\<close> is not a call of the library: it records the heights of the stacks in the
  history variable \<open>probes\<close>. The body of a callback is the expression it returns.
  \<open>Native name\<close> is the body of a built-in function of the language, which the
  model does not follow.
\<close>

datatype expr =
    Const "expr jsval"
  | Arg
  | KeyArg
  | IsEq expr prim
  | NotEq expr prim
  | Not expr
  | And expr expr
  | Or expr expr
  | Seq expr expr
  | Throw string
  | TryCatch expr expr
  | Nv1 "expr jsval"
  | Nv2 expr "expr jsval"
  | Root
  | Up int
  | Value
  | Key
  | Index
  | Member expr expr
  | Match0 builtin
  | Match1 builtin expr
  | MatchFn builtin nat expr
  | Probe
  | Native string

text \<open>The property read \<^verbatim>\<open>base[k]\<close> as the language evaluates it.\<close>

definition member :: "'c jsval \<Rightarrow> 'c jsval \<Rightarrow> 'c state \<Rightarrow> ('c, 'c jsval) outcome" where
  "member base k st =
     (case base of
        VWrap x \<Rightarrow>
          (case k of
             VPrim q \<Rightarrow> (Inr (getter x (VPrim (primOfKey (toPropertyKey q)))), st)
           | VWrap y \<Rightarrow> (Inr (getter x k), st)
           | _ \<Rightarrow> (Inl Unmodelled, st))
      | VPrim PUndefined \<Rightarrow> (Inl TypeError, st)
      | VPrim PNull \<Rightarrow> (Inl TypeError, st)
      | _ \<Rightarrow>
          (case k of
             VPrim q \<Rightarrow> (Inr (getProp base (toPropertyKey q)), st)
           | VWrap y \<Rightarrow> (Inr undefined_v, st)
           | _ \<Rightarrow> (Inl Unmodelled, st)))"

definition liftB :: "bool \<Rightarrow> 'c jsval" where
  "liftB b = VPrim (PBool b)"

text \<open>
  \<open>exec e v k st\<close> evaluates the body \<open>e\<close> of a function called with the arguments
  \<open>v\<close> and \<open>k\<close>. A function value that reaches a matcher from the data, rather than
  being written at the call, is not followed (\<open>Unmodelled\<close>, which \<^verbatim>\<open>catch\<close> lets
  through).
\<close>

function exec :: "expr \<Rightarrow> expr jsval \<Rightarrow> expr jsval \<Rightarrow> expr state \<Rightarrow> (expr, expr jsval) outcome" where
  "exec (Const c) v k st = (Inr c, st)"
| "exec Arg v k st = (Inr v, st)"
| "exec KeyArg v k st = (Inr k, st)"
| "exec (IsEq e p) v k st =
     (case exec e v k st of
        (Inl x, st1) \<Rightarrow> (Inl x, st1)
      | (Inr r, st1) \<Rightarrow> (Inr (liftB (strictEqPrim r p)), st1))"
| "exec (NotEq e p) v k st =
     (case exec e v k st of
        (Inl x, st1) \<Rightarrow> (Inl x, st1)
      | (Inr r, st1) \<Rightarrow> (Inr (liftB (\<not> strictEqPrim r p)), st1))"
| "exec (Not e) v k st =
     (case exec e v k st of
        (Inl x, st1) \<Rightarrow> (Inl x, st1)
      | (Inr r, st1) \<Rightarrow> (Inr (liftB (\<not> truthy r)), st1))"
| "exec (And a b) v k st =
     (case exec a v k st of
        (Inl x, st1) \<Rightarrow> (Inl x, st1)
      | (Inr r, st1) \<Rightarrow> if truthy r then exec b v k st1 else (Inr r, st1))"
| "exec (Or a b) v k st =
     (case exec a v k st of
        (Inl x, st1) \<Rightarrow> (Inl x, st1)
      | (Inr r, st1) \<Rightarrow> if truthy r then (Inr r, st1) else exec b v k st1)"
| "exec (Seq a b) v k st =
     (case exec a v k st of
        (Inl x, st1) \<Rightarrow> (Inl x, st1)
      | (Inr r, st1) \<Rightarrow> exec b v k st1)"
| "exec (Throw s) v k st = (Inl (Thrown s), st)"
| "exec (TryCatch a b) v k st =
     (case exec a v k st of
        (Inl x, st1) \<Rightarrow> if x = Unmodelled then (Inl x, st1) else exec b v k st1
      | (Inr r, st1) \<Rightarrow> (Inr r, st1))"
| "exec (Nv1 schema) v k st = validator exec [schema] st"
| "exec (Nv2 e schema) v k st =
     (case exec e v k st of
        (Inl x, st1) \<Rightarrow> (Inl x, st1)
      | (Inr r, st1) \<Rightarrow> validator exec [r, schema] st1)"
| "exec Root v k st = validator_root st"
| "exec (Up levels) v k st = validator_up levels st"
| "exec Value v k st = validator_value st"
| "exec Key v k st = validator_key st"
| "exec Index v k st = validator_index st"
| "exec (Member a b) v k st =
     (case exec a v k st of
        (Inl x, st1) \<Rightarrow> (Inl x, st1)
      | (Inr base, st1) \<Rightarrow>
          (case exec b v k st1 of
             (Inl x, st2) \<Rightarrow> (Inl x, st2)
           | (Inr r, st2) \<Rightarrow> member base r st2))"
| "exec (Match0 m) v k st =
     enhanceMatcher (builtinMatcher m) (builtinName m) (\<lambda>f s. (Inl Unmodelled, s)) [] st"
| "exec (Match1 m e) v k st =
     (case exec e v k st of
        (Inl x, st1) \<Rightarrow> (Inl x, st1)
      | (Inr r, st1) \<Rightarrow>
          enhanceMatcher (builtinMatcher m) (builtinName m) (\<lambda>f s. (Inl Unmodelled, s)) [r] st1)"
| "exec (MatchFn m n body) v k st =
     enhanceMatcher (builtinMatcher m) (builtinName m)
       (\<lambda>f s. exec body undefined_v undefined_v s) [VFun n body] st"
| "exec Probe v k st =
     (Inr undefined_v,
      st\<lparr>probes := probes st @ [(length (valuesStack st), length (funnel st), length (path st))]\<rparr>)"
| "exec (Native name) v k st = (Inl Unmodelled, st)"
  by pat_completeness auto
termination
  by (relation "measure (\<lambda>(e, v, k, st). size e)")
     (auto simp: argSchema_def less_Suc_eq_le dest!: callbacks_size[where f=size])

declare exec.simps [simp del]

text \<open>
  An object literal \<^verbatim>\<open>{ ... }\<close> inherits the members of \<^verbatim>\<open>Object.prototype\<close>: eleven
  built-in functions and the accessor \<^verbatim>\<open>__proto__\<close>, which reads as the prototype
  itself (an object without enumerable properties; its members are listed as what a read
  of it finds).
\<close>

definition objectPrototypeMethods :: "(key \<times> expr jsval) list" where
  "objectPrototypeMethods =
     [(KStr ''constructor'', VFun 9000 (Native ''Object'')),
      (KStr ''__defineGetter__'', VFun 9001 (Native ''__defineGetter__'')),
      (KStr ''__defineSetter__'', VFun 9002 (Native ''__defineSetter__'')),
      (KStr ''hasOwnProperty'', VFun 9003 (Native ''hasOwnProperty'')),
      (KStr ''__lookupGetter__'', VFun 9004 (Native ''__lookupGetter__'')),
      (KStr ''__lookupSetter__'', VFun 9005 (Native ''__lookupSetter__'')),
      (KStr ''isPrototypeOf'', VFun 9006 (Native ''isPrototypeOf'')),
      (KStr ''propertyIsEnumerable'', VFun 9007 (Native ''propertyIsEnumerable'')),
      (KStr ''toString'', VFun 9008 (Native ''toString'')),
      (KStr ''valueOf'', VFun 9009 (Native ''valueOf'')),
      (KStr ''toLocaleString'', VFun 9010 (Native ''toLocaleString''))]"

definition objectPrototype :: "(key \<times> expr jsval) list" where
  "objectPrototype =
     objectPrototypeMethods @ [(KStr ''__proto__'', VObj [] objectPrototypeMethods)]"

definition object :: "(key \<times> expr jsval) list \<Rightarrow> expr jsval" where
  "object es = VObj es objectPrototype"

section \<open>Literals\<close>

lemma inspect_literal:
  "inspect call (VPrim p) v st =
     (Inr (VPrim (PBool (\<not> strictEqPrim v p))),
      (if \<not> strictEqPrim v p
       then (if errorPath st = None then st\<lparr>errorPath := Some (path st)\<rparr> else st)
       else st\<lparr>errorPath := None\<rparr>)\<lparr>trace := trace st @ [(path st, \<not> strictEqPrim v p)]\<rparr>)"
  by (simp add: inspect.simps doInspect_def)

lemma strictEqPrim_NaN: "\<not> strictEqPrim v (PNum NaN)"
  by (cases v) auto

text \<open>
  Claim C10. The comparison with a literal is \<^verbatim>\<open>value !== schema\<close>, so against the
  literal schema \<^verbatim>\<open>NaN\<close> every value, \<^verbatim>\<open>NaN\<close> included, is in error: a call of the
  validator that is let in (it is not a new top-level call on a finished instance)
  returns \<^verbatim>\<open>true\<close>, whatever the value and whatever the callbacks do.
\<close>

theorem nan_literal_never_validates:
  "\<not> (validatorDepth st = 0 \<and> finished st) \<Longrightarrow>
   fst (validator call [v, VPrim (PNum NaN)] st) = Inr true_v"
  by (auto simp: validator_def argSchema_def Let_def inspect_literal strictEqPrim_NaN)

theorem nan_literal_never_validates_witness:
  "\<not> (validatorDepth (newInstance :: expr state) = 0 \<and> finished (newInstance :: expr state))
   \<and> fst (validator exec [VPrim (PNum NaN), VPrim (PNum NaN)] newInstance) = Inr true_v"
  using nan_literal_never_validates [of newInstance exec "VPrim (PNum NaN)"]
  by (simp add: newInstance_def)

section \<open>The example of the specification\<close>

text \<open>The equations by which a call on given values is evaluated.\<close>

lemmas run_simps =
  validator_def argSchema_def inspect.simps doInspect_def inspectDeeper_def inspectObject_def
  inspectArray_def validateObjectSchema_def validateArraySchema_def inspectKey_def run_def
  exec.simps allEntries_def objectEntries_def ownPropertySymbols_def resetAndThrow_def reset_def
  basicReset_def currentKey_def currentValue_def getIndex_def indexOfKey_def digitString_def
  isDigit_def intOfDigits_def symbolList_def regularSlot_def matchers_defined_def liftB_def
  object_def objectPrototype_def objectPrototypeMethods_def newInstance_def Let_def
  validator_errorPath_def

text \<open>
  The value \<^verbatim>\<open>{ type: 'dragon', position: [1, 'x'] }\<close> and the schema
  \<^verbatim>\<open>{ type: v => v !== 'dragon', position: [() => false, () => false] }\<close>.
\<close>

definition dragonValue :: "expr jsval" where
  "dragonValue = object [(KStr ''type'', VPrim (PStr ''dragon'')),
     (KStr ''position'', VArr [Some (VPrim (PNum (Fin 1))), Some (VPrim (PStr ''x''))])]"

definition dragonSchema :: "expr jsval" where
  "dragonSchema = object [(KStr ''type'', VFun 0 (NotEq Arg (PStr ''dragon''))),
     (KStr ''position'', VArr [Some (VFun 1 (Const false_v)), Some (VFun 2 (Const false_v))])]"

text \<open>
  The call does not return a truthy error with the error path \<^verbatim>\<open>['position', 1]\<close>.
\<close>

theorem dragon_example_counterexample:
  "\<not> (truthy (projr (fst (validator exec [dragonValue, dragonSchema] newInstance)))
      \<and> fst (validator_errorPath (snd (validator exec [dragonValue, dragonSchema] newInstance)))
          = Inr (Some [PStr ''position'', PNum (Fin 1)]))"
  by (simp add: run_simps dragonValue_def dragonSchema_def upt_rec)

text \<open>
  Claim C4, as amended. Validating \<^verbatim>\<open>{ type: 'dragon', position: [1, 'x'] }\<close> against
  \<^verbatim>\<open>{ type: v => v !== 'dragon', position: [() => false, () => false] }\<close> on a new
  instance returns \<^verbatim>\<open>false\<close> (every callback returns \<^verbatim>\<open>false\<close>: the type is
  \<^verbatim>\<open>'dragon'\<close>), and after that call \<^verbatim>\<open>errorPath()\<close> returns \<^verbatim>\<open>null\<close>.
\<close>

theorem dragon_example_valid:
  "fst (validator exec [dragonValue, dragonSchema] newInstance) = Inr false_v
   \<and> fst (validator_errorPath (snd (validator exec [dragonValue, dragonSchema] newInstance)))
       = Inr None"
  by (simp add: run_simps dragonValue_def dragonSchema_def upt_rec)

theorem dragon_example_valid_witness:
  "fst (validator exec [dragonValue, dragonSchema] newInstance) = Inr false_v"
  using dragon_example_valid by simp

section \<open>Malformed array schemas\<close>

text \<open>
  The malformations, in the words of the specification. The regular part of an array
  schema ends at the first end-of-array marker (the symbol, or a hole); \<open>afterMarker\<close>
  is what follows it. There, a function is a catch-remaining callback, another truthy
  value is an override, and a value that is neither is a falsy override.
\<close>

definition afterMarker :: "'c jsval option list \<Rightarrow> 'c jsval option list" where
  "afterMarker sl = drop (length (takeWhile regularSlot sl) + 1) sl"

definition isMarkerSlot :: "'c jsval option \<Rightarrow> bool" where
  "isMarkerSlot slot = (slot = None \<or> slot = Some (VPrim (PSymbol SymEnd)))"

definition isCallbackSlot :: "'c jsval option \<Rightarrow> bool" where
  "isCallbackSlot slot = matchers_function (slotValue slot)"

definition isOverrideSlot :: "'c jsval option \<Rightarrow> bool" where
  "isOverrideSlot slot = (\<not> isMarkerSlot slot \<and> \<not> isCallbackSlot slot \<and> truthy (slotValue slot))"

definition isFalsyOverrideSlot :: "'c jsval option \<Rightarrow> bool" where
  "isFalsyOverrideSlot slot = (\<not> isMarkerSlot slot \<and> \<not> isCallbackSlot slot \<and> \<not> truthy (slotValue slot))"

definition malformedArraySchema :: "'c jsval option list \<Rightarrow> bool" where
  "malformedArraySchema sl =
     (length (filter isCallbackSlot (afterMarker sl)) > 1
      \<or> length (filter isOverrideSlot (afterMarker sl)) > 1
      \<or> list_ex isMarkerSlot (afterMarker sl)
      \<or> list_ex isFalsyOverrideSlot (afterMarker sl)
      \<or> length (afterMarker sl) > 2)"

lemma validateArraySchema_loop_malformed:
  "list_ex isMarkerSlot a \<or> list_ex isFalsyOverrideSlot a
   \<or> length (filter isCallbackSlot a) + (if matchers_defined f then 1 else 0) > 1
   \<or> length (filter isOverrideSlot a) + (if matchers_defined t then 1 else 0) > 1 \<Longrightarrow>
   \<exists>m. validateArraySchema_loop a f t st = (Inl (Error m), reset True st)"
proof (induction a arbitrary: f t)
  case Nil
  then show ?case by (simp split: if_splits)
next
  case (Cons slot rest)
  show ?case
  proof (cases "regularSlot slot")
    case False
    then show ?thesis by (simp add: resetAndThrow_def)
  next
    case True
    then have nm: "\<not> isMarkerSlot slot" by (simp add: regularSlot_def isMarkerSlot_def)
    show ?thesis
    proof (cases "matchers_function (slotValue slot)")
      case fn: True
      then have d: "matchers_defined (slotValue slot)"
        by (cases "slotValue slot") (auto simp: matchers_defined_def)
      show ?thesis
      proof (cases "matchers_defined f")
        case True
        then show ?thesis using \<open>regularSlot slot\<close> fn by (simp add: resetAndThrow_def Let_def)
      next
        case False
        have "\<exists>m. validateArraySchema_loop rest (slotValue slot) t st = (Inl (Error m), reset True st)"
          apply (rule Cons.IH)
          using Cons.prems nm fn d False
          by (auto simp: isCallbackSlot_def isOverrideSlot_def isFalsyOverrideSlot_def split: if_splits)
        then show ?thesis using \<open>regularSlot slot\<close> fn False by (simp add: Let_def)
      qed
    next
      case nf: False
      show ?thesis
      proof (cases "truthy (slotValue slot)")
        case tr: True
        then have d: "matchers_defined (slotValue slot)"
          by (cases "slotValue slot" rule: truthy.cases) (auto simp: matchers_defined_def)
        show ?thesis
        proof (cases "matchers_defined t")
          case True
          then show ?thesis using \<open>regularSlot slot\<close> nf tr by (simp add: resetAndThrow_def Let_def)
        next
          case False
          have "\<exists>m. validateArraySchema_loop rest f (slotValue slot) st = (Inl (Error m), reset True st)"
            apply (rule Cons.IH)
            using Cons.prems nm nf tr d False
            by (auto simp: isCallbackSlot_def isOverrideSlot_def isFalsyOverrideSlot_def split: if_splits)
          then show ?thesis using \<open>regularSlot slot\<close> nf tr False by (simp add: Let_def)
        qed
      next
        case False
        then show ?thesis using \<open>regularSlot slot\<close> nf by (simp add: resetAndThrow_def Let_def)
      qed
    qed
  qed
qed

lemma validateArraySchema_malformed:
  assumes "malformedArraySchema sl"
  shows "\<exists>m. validateArraySchema sl st = (Inl (Error m), reset True st)"
proof (cases "find (\<lambda>v. matchers_symbol v \<and> v \<noteq> VPrim (PSymbol SymEnd) \<and> isSpecialSymbol v) (map slotValue sl)")
  case (Some a)
  then show ?thesis by (simp add: validateArraySchema_def resetAndThrow_def)
next
  case None
  show ?thesis
  proof (cases "length sl > length (takeWhile regularSlot sl) + 3")
    case True
    then show ?thesis using None by (simp add: validateArraySchema_def resetAndThrow_def Let_def)
  next
    case False
    then have "\<not> length (afterMarker sl) > 2" by (simp add: afterMarker_def)
    with assms have
      "list_ex isMarkerSlot (afterMarker sl) \<or> list_ex isFalsyOverrideSlot (afterMarker sl)
       \<or> length (filter isCallbackSlot (afterMarker sl)) + (if matchers_defined (undefined_v :: 'a jsval) then 1 else 0) > 1
       \<or> length (filter isOverrideSlot (afterMarker sl)) + (if matchers_defined (undefined_v :: 'a jsval) then 1 else 0) > 1"
      by (auto simp: malformedArraySchema_def matchers_defined_def)
    from validateArraySchema_loop_malformed[OF this, of st]
    show ?thesis using None False
      by (auto simp: validateArraySchema_def Let_def afterMarker_def)
  qed
qed

text \<open>
  Claim C7. Validating any value against a malformed array schema (more than one
  catch-remaining callback after the end-of-array marker, more than one override, a
  second marker, a falsy override, or more than two elements after the marker) raises an
  error of the library and leaves the instance reset, whether or not the value is an
  array, and whatever state the instance is in.
\<close>

theorem malformed_array_schema_raises:
  assumes "malformedArraySchema sl"
  shows "\<exists>m s. validator call [v, VArr sl] st = (Inl (Error m), reset True s)"
proof (cases "validatorDepth st = 0 \<and> finished st")
  case True
  then show ?thesis by (auto simp: validator_def resetAndThrow_def)
next
  case False
  define st2 where "st2 = (if validatorDepth st = 0 then st\<lparr>started := True\<rparr> else st)\<lparr>validatorDepth := validatorDepth (if validatorDepth st = 0 then st\<lparr>started := True\<rparr> else st) + 1\<rparr>"
  obtain m where "validateArraySchema sl (st2\<lparr>funnel := funnel st2 @ [v]\<rparr>)
      = (Inl (Error m), reset True (st2\<lparr>funnel := funnel st2 @ [v]\<rparr>))"
    using validateArraySchema_malformed[OF assms] by blast
  then have "inspect call (VArr sl) v st2 = (Inl (Error m), reset True (st2\<lparr>funnel := funnel st2 @ [v]\<rparr>))"
    by (simp add: inspect.simps doInspect_def inspectDeeper_def inspectArray_def)
  then have "validator call [v, VArr sl] st = (Inl (Error m), reset True (st2\<lparr>funnel := funnel st2 @ [v]\<rparr>))"
    using False unfolding validator_def st2_def by (auto simp: argSchema_def Let_def)
  then show ?thesis by blast
qed

theorem malformed_array_schema_raises_witness:
  "malformedArraySchema [Some (VPrim (PSymbol SymEnd)), Some (VFun 0 (Const false_v)), Some (VFun 1 (Const false_v))]
   \<and> (\<exists>m s. validator exec [VPrim PNull, VArr [Some (VPrim (PSymbol SymEnd)), Some (VFun 0 (Const false_v)), Some (VFun 1 (Const false_v))]] newInstance
         = (Inl (Error m), reset True s))"
proof -
  have h: "malformedArraySchema [Some (VPrim (PSymbol SymEnd)), Some (VFun 0 (Const false_v)), Some (VFun 1 (Const (false_v :: expr jsval)))]"
    by (simp add: malformedArraySchema_def afterMarker_def regularSlot_def isCallbackSlot_def)
  show ?thesis using h malformed_array_schema_raises [OF h, of exec "VPrim PNull" newInstance] by simp
qed

section \<open>Matchers called with a function\<close>

text \<open>
  The state in which a callback runs for the member \<^verbatim>\<open>x\<close>, absent from the value
  \<^verbatim>\<open>{}\<close>, of a schema \<^verbatim>\<open>{ x: callback }\<close>: the root is \<^verbatim>\<open>{}\<close> and the current value
  is \<^verbatim>\<open>undefined\<close>.
\<close>

definition insideCallback :: "expr state" where
  "insideCallback = newInstance\<lparr>valuesStack := [undefined_v], funnel := [object []], path := [PStr ''x''],
      started := True, validatorDepth := 1\<rparr>"

text \<open>
  A value is consumable by the matcher when it is an object that answers for the private
  unwrap symbol: a proxy of \<^verbatim>\<open>wrapIfSafe\<close>.
\<close>

definition consumable :: "'c jsval \<Rightarrow> bool" where
  "consumable r = (matchers_object r \<and> hasProperty r (KSym SymUnwrap))"

text \<open>
  On a new instance, outside of any validation, \<^verbatim>\<open>nv.defined(() => nv.root())\<close>
  returns \<^verbatim>\<open>true\<close> and changes nothing: the function is not called (calling it in
  deferred mode raises, there being no root).
\<close>

theorem matcher_function_argument_counterexample:
  "exec (MatchFn M_defined 0 Root) undefined_v undefined_v newInstance = (Inr true_v, newInstance)
   \<and> fst (exec Root undefined_v undefined_v (newInstance\<lparr>safeDepth := safeDepth newInstance + 1\<rparr>))
       = Inl (Error RootOutside)"
  by (simp add: exec.simps enhanceMatcher_def newInstance_def currentValue_def matchers_defined_def
      validator_root_def resetAndThrow_def)

text \<open>
  Claim C6, as amended. For every matcher \<open>m\<close> (with predicate \<open>matcher\<close>) and every
  function \<open>f\<close>: when a current value exists and \<open>f\<close> is not that value, \<open>m(f)\<close> calls
  \<open>f\<close> with \<^verbatim>\<open>safeDepth\<close> incremented and decrements it afterwards; a wrapper returned
  by \<open>f\<close> is unwrapped and given to the predicate, a result that is not consumable
  raises the protocol violation and resets the instance, and an error raised by \<open>f\<close>
  is passed on. When no value is on the stack, or \<open>f\<close> is the current value, the
  predicate is applied to \<open>f\<close> itself and \<open>f\<close> is not called.
\<close>

theorem matcher_function_argument:
  assumes "matchers_function f"
  shows "(valuesStack st = [] \<or> sameFunction (currentValue st) f \<longrightarrow>
            enhanceMatcher matcher name invoke [f] st = (Inr (matcher f), st))
       \<and> (valuesStack st \<noteq> [] \<and> \<not> sameFunction (currentValue st) f \<longrightarrow>
            (\<forall>x st1. invoke f (st\<lparr>safeDepth := safeDepth st + 1\<rparr>) = (Inr (VWrap x), st1) \<longrightarrow>
               enhanceMatcher matcher name invoke [f] st
                 = (Inr (matcher x), st1\<lparr>safeDepth := safeDepth st1 - 1\<rparr>))
          \<and> (\<forall>r st1. invoke f (st\<lparr>safeDepth := safeDepth st + 1\<rparr>) = (Inr r, st1) \<and> \<not> consumable r \<longrightarrow>
               enhanceMatcher matcher name invoke [f] st
                 = (Inl (Error NoTraversal), reset True (st1\<lparr>safeDepth := safeDepth st1 - 1\<rparr>)))
          \<and> (\<forall>e st1. invoke f (st\<lparr>safeDepth := safeDepth st + 1\<rparr>) = (Inl e, st1) \<longrightarrow>
               enhanceMatcher matcher name invoke [f] st
                 = (Inl e, st1\<lparr>safeDepth := safeDepth st1 - 1\<rparr>)))"
  using assms
  by (auto simp: enhanceMatcher_def consumable_def Let_def resetAndThrow_def)


theorem matcher_function_argument_witness:
  "matchers_function (VFun 0 Root)
   \<and> enhanceMatcher (builtinMatcher M_get) (builtinName M_get) (\<lambda>f s. exec Root undefined_v undefined_v s)
        [VFun 0 Root] insideCallback = (Inr (object []), insideCallback)
   \<and> enhanceMatcher (builtinMatcher M_get) (builtinName M_get) (\<lambda>f s. exec Root undefined_v undefined_v s)
        [VFun 0 Root] newInstance = (Inr (VFun 0 Root), newInstance)"
proof -
  have h: "matchers_function (VFun 0 Root)" by simp
  have i: "exec Root undefined_v undefined_v (insideCallback\<lparr>safeDepth := safeDepth insideCallback + 1\<rparr>)
     = (Inr (VWrap (object [])), insideCallback\<lparr>safeDepth := safeDepth insideCallback + 1\<rparr>)"
    by (simp add: exec.simps validator_root_def insideCallback_def newInstance_def wrapIfSafe_def)
  have v: "valuesStack insideCallback \<noteq> [] \<and> \<not> sameFunction (currentValue insideCallback) (VFun 0 Root)"
    by (simp add: insideCallback_def newInstance_def currentValue_def)
  have n: "valuesStack (newInstance :: expr state) = []" by (simp add: newInstance_def)
  have r: "insideCallback\<lparr>safeDepth := safeDepth insideCallback + 1, safeDepth := safeDepth insideCallback + 1 - 1\<rparr> = insideCallback"
    by (simp add: insideCallback_def newInstance_def)
  show ?thesis
    using h v n i r
      matcher_function_argument [OF h, of insideCallback "builtinMatcher M_get" "builtinName M_get"
        "\<lambda>f s. exec Root undefined_v undefined_v s"]
      matcher_function_argument [OF h, of newInstance "builtinMatcher M_get" "builtinName M_get"
        "\<lambda>f s. exec Root undefined_v undefined_v s"]
    by (simp add: matchers_get_def)
qed


section \<open>Deferred navigation\<close>

text \<open>The navigation \<^verbatim>\<open>root().a.b.c\<close>.\<close>

definition rootABC :: expr where
  "rootABC = Member (Member (Member Root (Const (VPrim (PStr ''a'')))) (Const (VPrim (PStr ''b''))))
               (Const (VPrim (PStr ''c'')))"

lemma toPropertyKey_primOfKey: "toPropertyKey (primOfKey k) = k"
  by (cases k) auto

lemma primOfKey_unwrap: "primOfKey (toPropertyKey q) = PSymbol SymUnwrap \<longleftrightarrow> q = PSymbol SymUnwrap"
  by (cases q rule: toPropertyKey.cases) (auto split: if_splits)

lemma member_wrapper:
  "q \<noteq> PSymbol SymUnwrap \<Longrightarrow>
   \<exists>y. member (VWrap x) (VPrim q) st = (Inr (VWrap y), st)
      \<and> (\<not> hasProperty x (toPropertyKey q) \<longrightarrow> y = undefined_v)"
  by (auto simp: member_def Let_def primOfKey_unwrap toPropertyKey_primOfKey)

lemma member_wrapper_key:
  "\<exists>y. member (VWrap x) (VWrap z) st = (Inr (VWrap y), st)"
  by (auto simp: member_def Let_def split: jsval.splits)

lemma rootABC_empty:
  assumes "safeDepth st > 0" "funnel st \<noteq> []" "funnel st ! 0 = VObj [] ih"
  shows "exec rootABC v k st = (Inr (VWrap undefined_v), st)"
  using assms
  by (simp add: rootABC_def exec.simps validator_root_def wrapIfSafe_def member_def)

text \<open>
  Claim C5. A property read on a wrapper never raises: with a string, a number or a
  symbol as the key, and with another wrapper as the key, it gives a wrapper again, and
  when the wrapped value does not have the member, the wrapper of \<^verbatim>\<open>undefined\<close>,
  which unwraps to \<^verbatim>\<open>undefined\<close>. In particular \<^verbatim>\<open>get(() => root().a.b.c)\<close>, called
  in a callback while the root is \<^verbatim>\<open>{}\<close>, returns \<^verbatim>\<open>undefined\<close> and leaves the state
  as it was. The anchors still throw in deferred mode: \<^verbatim>\<open>up(n)\<close> with no more than
  \<open>n\<close> ancestors, and \<^verbatim>\<open>root()\<close> with none.
\<close>

theorem deferred_navigation_never_raises:
  "(q \<noteq> PSymbol SymUnwrap \<longrightarrow>
      (\<exists>y. member (VWrap x) (VPrim q) st = (Inr (VWrap y), st)
          \<and> (\<not> hasProperty x (toPropertyKey q) \<longrightarrow> y = undefined_v)))
   \<and> (\<exists>y. member (VWrap x) (VWrap z) st = (Inr (VWrap y), st))
   \<and> getProp (VWrap (undefined_v :: expr jsval)) (KSym SymUnwrap) = undefined_v
   \<and> (valuesStack st \<noteq> [] \<and> \<not> matchers_function (currentValue st)
        \<and> funnel st \<noteq> [] \<and> funnel st ! 0 = VObj [] ih \<and> safeDepth st \<ge> 0 \<longrightarrow>
        exec (MatchFn M_get n rootABC) v k st = (Inr undefined_v, st))
   \<and> (safeDepth st > 0 \<and> int (length (funnel st)) \<le> levels \<longrightarrow>
        validator_up levels st = (Inl (Error UpAbove), reset True st))
   \<and> (safeDepth st > 0 \<and> funnel st = [] \<longrightarrow>
        validator_root st = (Inl (Error RootOutside), reset True st))"
proof (intro conjI impI)
  assume "q \<noteq> PSymbol SymUnwrap"
  then show "\<exists>y. member (VWrap x) (VPrim q) st = (Inr (VWrap y), st)
          \<and> (\<not> hasProperty x (toPropertyKey q) \<longrightarrow> y = undefined_v)"
    by (rule member_wrapper)
next
  show "\<exists>y. member (VWrap x) (VWrap z) st = (Inr (VWrap y), st)"
    by (rule member_wrapper_key)
next
  show "getProp (VWrap (undefined_v :: expr jsval)) (KSym SymUnwrap) = undefined_v" by simp
next
  assume a: "valuesStack st \<noteq> [] \<and> \<not> matchers_function (currentValue st)
        \<and> funnel st \<noteq> [] \<and> funnel st ! 0 = VObj [] ih \<and> safeDepth st \<ge> 0"
  then have ns: "\<not> sameFunction (currentValue st) (VFun n rootABC)"
    by (cases "currentValue st") auto
  have e: "exec rootABC undefined_v undefined_v (st\<lparr>safeDepth := safeDepth st + 1\<rparr>)
        = (Inr (VWrap undefined_v), st\<lparr>safeDepth := safeDepth st + 1\<rparr>)"
    by (rule rootABC_empty) (use a in auto)
  show "exec (MatchFn M_get n rootABC) v k st = (Inr undefined_v, st)"
    using a ns by (simp add: exec.simps enhanceMatcher_def e matchers_get_def)
next
  assume "safeDepth st > 0 \<and> int (length (funnel st)) \<le> levels"
  then show "validator_up levels st = (Inl (Error UpAbove), reset True st)"
    by (simp add: validator_up_def resetAndThrow_def)
next
  assume "safeDepth st > 0 \<and> funnel st = []"
  then show "validator_root st = (Inl (Error RootOutside), reset True st)"
    by (simp add: validator_root_def resetAndThrow_def)
qed

theorem deferred_navigation_never_raises_witness:
  "member (VWrap (object [])) (VPrim (PStr ''a'')) insideCallback = (Inr (VWrap undefined_v), insideCallback)
   \<and> exec (MatchFn M_get 0 rootABC) undefined_v (VPrim (PStr ''x'')) insideCallback
       = (Inr undefined_v, insideCallback)
   \<and> validator_up 1 (insideCallback\<lparr>safeDepth := 1\<rparr>)
       = (Inl (Error UpAbove), reset True (insideCallback\<lparr>safeDepth := 1\<rparr>))"
proof -
  have a: "valuesStack insideCallback \<noteq> [] \<and> \<not> matchers_function (currentValue insideCallback)
        \<and> funnel insideCallback \<noteq> [] \<and> funnel insideCallback ! 0 = VObj [] objectPrototype
        \<and> safeDepth insideCallback \<ge> 0"
    by (simp add: insideCallback_def newInstance_def currentValue_def object_def)
  have b: "\<not> hasProperty (object []) (toPropertyKey (PStr ''a''))" by (simp add: object_def)
  have c: "safeDepth (insideCallback\<lparr>safeDepth := 1\<rparr>) > 0
     \<and> int (length (funnel (insideCallback\<lparr>safeDepth := 1\<rparr>))) \<le> 1"
    by (simp add: insideCallback_def newInstance_def)
  show ?thesis
    using a b c
      deferred_navigation_never_raises [of "PStr ''a''" "object []" insideCallback undefined_v
        objectPrototype 0 undefined_v "VPrim (PStr ''x'')" 1]
      deferred_navigation_never_raises [of "PStr ''a''" "object []" "insideCallback\<lparr>safeDepth := 1\<rparr>"
        undefined_v objectPrototype 0 undefined_v "VPrim (PStr ''x'')" 1]
    by auto
qed

section \<open>The order of visit of the members of an object (claim C2)\<close>

text \<open>
  The definitions of this section follow the words of the claim, not the code, and the
  theorem compares them with \<^verbatim>\<open>inspectObject\<close> (lines 94--120). The reserved
  markers are the three symbols that an object schema may carry as annotations
  (\<^verbatim>\<open>nv.other\<close>, \<^verbatim>\<open>nv.error\<close> and \<^verbatim>\<open>nv.end\<close>); a declared member of the
  schema is an own property of the schema whose key is not a reserved marker; an
  undeclared member of the value is an own property of the value whose key is not the
  key of a declared member. \<open>ownMember\<close> reads an own property and gives
  \<^verbatim>\<open>undefined\<close> when the object does not own the key.
\<close>

definition reservedKey :: "key \<Rightarrow> bool" where
  "reservedKey k = (k = KSym SymOther \<or> k = KSym SymError \<or> k = KSym SymEnd)"


datatype 'c member = DeclaredMember key "'c jsval" | UndeclaredMember key "'c jsval"











lemma reservedKey_code: "(isSymbolKey k \<and> symbolOfKey k \<in> set symbolList) = reservedKey k"
  by (cases k) (auto simp: reservedKey_def symbolList_def)



























section \<open>The result of a validation (claim C1)\<close>

text \<open>
  For this section a callback is a function of the value and of the key it is called
  with, which returns a value or throws: \<open>cb c v k\<close> is what the callback \<open>c\<close> does,
  and \<open>pureCall cb\<close> runs it without touching the state of the instance.

  The definitions that follow are written from the words of the claim. A validation is
  a sequence of checks: a callback called on a member, a literal compared with a member
  (\<open>Literal True\<close> is a mismatch), a container schema met by a value of another shape
  (\<open>Shape override\<close>, with the override of the schema, \<^verbatim>\<open>undefined\<close> when there is
  none), a member of the value that the schema does not expect and that no
  catch-remaining callback receives (\<open>Extra\<close>), and a schema that is malformed
  (\<open>Malformed\<close>, with the exception). A check passes when the callback returns a
  falsy value or the literal is equal; every other check fails. \<open>outcomeOf\<close> is what
  a failed check makes of the validation: the truthy value of the callback, the
  exception of the callback or of the malformed schema, the override, or
  \<^verbatim>\<open>true\<close>.
\<close>

type_synonym 'c behaviour = "'c \<Rightarrow> 'c jsval \<Rightarrow> 'c jsval \<Rightarrow> exn + 'c jsval"

definition pureCall :: "'c behaviour \<Rightarrow> 'c caller" where
  "pureCall cb c v k st = (cb c v k, st)"

datatype 'c check =
    Callback "exn + 'c jsval"
  | Literal bool
  | Shape "'c jsval"
  | Extra
  | Malformed exn

fun outcomeOf :: "'c check \<Rightarrow> exn + 'c jsval" where
  "outcomeOf (Callback (Inl e)) = Inl e"
| "outcomeOf (Callback (Inr r)) = Inr (if truthy r then r else false_v)"
| "outcomeOf (Literal mismatch) = Inr (VPrim (PBool mismatch))"
| "outcomeOf (Shape override) = Inr (if truthy override then override else true_v)"
| "outcomeOf Extra = Inr true_v"
| "outcomeOf (Malformed e) = Inl e"

fun decisive :: "exn + 'c jsval \<Rightarrow> bool" where
  "decisive (Inl e) = True"
| "decisive (Inr r) = truthy r"

fun passes :: "'c check \<Rightarrow> bool" where
  "passes (Callback (Inl e)) = False"
| "passes (Callback (Inr r)) = (\<not> truthy r)"
| "passes (Literal mismatch) = (\<not> mismatch)"
| "passes (Shape override) = False"
| "passes Extra = False"
| "passes (Malformed e) = False"

lemma passes_decisive: "passes c = (\<not> decisive (outcomeOf c))"
  by (cases c rule: passes.cases) auto

definition verdict :: "'c check list \<Rightarrow> exn + 'c jsval" where
  "verdict cs = (case find decisive (map outcomeOf cs) of None \<Rightarrow> Inr false_v | Some r \<Rightarrow> r)"

text \<open>
  \<open>checks cb schema v k\<close> lists the checks of the value \<open>v\<close>, met under the key
  \<open>k\<close>, against \<open>schema\<close>, in the order of the traversal: for a container, the
  checks of the members that the schema declares, then one check for each remaining
  member of the value.
\<close>

fun catchRemaining :: "'c behaviour \<Rightarrow> 'c jsval \<Rightarrow> 'c jsval \<Rightarrow> prim \<Rightarrow> 'c check" where
  "catchRemaining cb (VFun n c) x k = Callback (cb c x (VPrim k))"
| "catchRemaining cb _ x k = Extra"

lemma validateArraySchema_fst_Inr:
  assumes "fst (validateArraySchema sl st) = Inr (maxIndex, catchOther, shapeError)"
  shows "maxIndex = length (takeWhile regularSlot sl)"
  using validateArraySchema_Inr(1)[of sl st maxIndex catchOther shapeError "snd (validateArraySchema sl st)"] assms
  by (metis prod.collapse)

function checks :: "'c behaviour \<Rightarrow> 'c jsval \<Rightarrow> 'c jsval \<Rightarrow> 'c jsval \<Rightarrow> 'c check list" where
  "checks cb (VFun n c) v k = [Callback (cb c v k)]"
| "checks cb (VPrim p) v k = [Literal (\<not> strictEqPrim v p)]"
| "checks cb (VObj es ih) v k =
     (case fst (validateObjectSchema (VObj es ih) newInstance) of
        Inl e \<Rightarrow> [Malformed e]
      | Inr (catchOther, shapeError) \<Rightarrow>
          if \<not> matchers_object v then [Shape shapeError]
          else
            concat (map (\<lambda>e. checks cb (snd e) (getProp v (fst e)) (VPrim (primOfKey (fst e))))
                      (filter (\<lambda>e. \<not> reservedKey (fst e)) (allEntries (VObj es ih))))
            @ map (\<lambda>e. catchRemaining cb catchOther (snd e) (primOfKey (fst e)))
                (filter (\<lambda>e. \<not> hasProperty (VObj es ih) (fst e)) (allEntries v)))"
| "checks cb (VWrap w) v k =
     (case fst (validateObjectSchema (VWrap w) newInstance) of
        Inl e \<Rightarrow> [Malformed e]
      | Inr (catchOther, shapeError) \<Rightarrow> [])"
| "checks cb (VArr sl) v k =
     (case fst (validateArraySchema sl newInstance) of
        Inl e \<Rightarrow> [Malformed e]
      | Inr (maxIndex, catchOther, shapeError) \<Rightarrow>
          if \<not> matchers_array v then [Shape shapeError]
          else
            concat (map (\<lambda>i. checks cb (getIndex sl i) (getIndex (arraySlots v) i) (VPrim (PNum (Fin (int i)))))
                      [0..<maxIndex])
            @ map (\<lambda>i. catchRemaining cb catchOther (getIndex (arraySlots v) i) (PNum (Fin (int i))))
                [maxIndex..<length (arraySlots v)])"
  by pat_completeness auto
termination
proof (relation "measure (\<lambda>(cb, schema, v, k). size schema)", goal_cases)
  case 1
  then show ?case by simp
next
  case (2 cb es ih v k x2 x y xa)
  then have "xa \<in> set es" using set_allEntries[of es ih] by auto
  then have "snd xa \<in> subschemas (VObj es ih)" by auto
  then show ?case using subschemas_size by fastforce
next
  case (3 cb sl v k x2 x y xa ya xb)
  then have "xb < length (takeWhile regularSlot sl)"
    using validateArraySchema_fst_Inr[of sl newInstance x xa ya] by simp
  then have "getIndex sl xb \<in> subschemas (VArr sl)"
    using regular_getIndex by auto
  then show ?case using subschemas_size by fastforce
qed


text \<open>The traversal computes the verdict of the list of checks.\<close>

declare checks.simps [simp del]

lemma verdict_Nil [simp]: "verdict [] = Inr false_v"
  by (simp add: verdict_def)

lemma verdict_Cons:
  "verdict (c # cs) = (if decisive (outcomeOf c) then outcomeOf c else verdict cs)"
  by (simp add: verdict_def)

lemma verdict_falsy: "verdict cs = Inr r \<Longrightarrow> \<not> truthy r \<Longrightarrow> r = false_v"
  by (induction cs) (auto simp: verdict_Cons split: if_splits)

lemma verdict_append:
  "verdict (xs @ ys) =
     (case verdict xs of Inl e \<Rightarrow> Inl e | Inr r \<Rightarrow> if truthy r then Inr r else verdict ys)"
proof (induction xs)
  case Nil
  then show ?case by simp
next
  case (Cons c xs)
  show ?case
  proof (cases "decisive (outcomeOf c)")
    case True
    then show ?thesis by (cases "outcomeOf c") (auto simp: verdict_Cons)
  next
    case False
    then show ?thesis using Cons by (simp add: verdict_Cons)
  qed
qed

fun settled :: "('c, 'a) outcome \<Rightarrow> bool" where
  "settled (Inl e, s) = finished s"
| "settled (Inr r, s) = (\<not> finished s)"

definition pureSpec :: "'c behaviour \<Rightarrow> 'c inspector \<Rightarrow> 'c jsval \<Rightarrow> bool" where
  "pureSpec cb insp sub =
     (\<forall>w s. \<not> finished s \<longrightarrow>
        fst (insp sub w s) = verdict (checks cb sub w (currentKey s)) \<and> settled (insp sub w s))"

lemma inspectKey_pure:
  assumes "pureSpec cb insp sub" "\<not> finished st"
  shows "fst (inspectKey insp sub w k st) = verdict (checks cb sub w (VPrim k))
       \<and> settled (inspectKey insp sub w k st)"
proof -
  let ?s = "st\<lparr>path := path st @ [k]\<rparr>"
  have "fst (insp sub w ?s) = verdict (checks cb sub w (currentKey ?s)) \<and> settled (insp sub w ?s)"
    using assms by (simp add: pureSpec_def)
  then show ?thesis
    by (cases "insp sub w ?s"; cases "fst (insp sub w ?s)")
       (auto simp: inspectKey_def currentKey_def)
qed

lemma schemaLoop_Cons:
  "inspectObject_schemaLoop insp v ((k, subschema) # rest) st =
     (if reservedKey k then inspectObject_schemaLoop insp v rest st
      else
        (case inspectKey insp subschema (getProp v k) (primOfKey k) st of
           (Inl e, st1) \<Rightarrow> (Inl e, st1)
         | (Inr error, st1) \<Rightarrow>
             if truthy error then (Inr error, st1)
             else inspectObject_schemaLoop insp v rest st1))"
  by (simp add: reservedKey_code)

lemma schemaLoop_pure:
  assumes "\<And>e. e \<in> set entries \<Longrightarrow> pureSpec cb insp (snd e)" "\<not> finished st"
  shows "fst (inspectObject_schemaLoop insp v entries st)
        = verdict (concat (map (\<lambda>e. checks cb (snd e) (getProp v (fst e)) (VPrim (primOfKey (fst e))))
                             (filter (\<lambda>e. \<not> reservedKey (fst e)) entries)))
       \<and> settled (inspectObject_schemaLoop insp v entries st)"
  using assms
proof (induction entries arbitrary: st)
  case Nil
  then show ?case by simp
next
  case (Cons e entries)
  obtain k sub where e: "e = (k, sub)" by (cases e)
  show ?case
  proof (cases "reservedKey k")
    case True
    then show ?thesis using Cons e
      by (simp add: schemaLoop_Cons del: inspectObject_schemaLoop.simps)
  next
    case False
    have ps: "pureSpec cb insp sub" using Cons.prems(1)[of e] e by simp
    note ik = inspectKey_pure[OF ps Cons.prems(2), of "getProp v k" "primOfKey k"]
    obtain r s1 where r: "inspectKey insp sub (getProp v k) (primOfKey k) st = (r, s1)"
      by (cases "inspectKey insp sub (getProp v k) (primOfKey k) st")
    have hv: "verdict (checks cb sub (getProp v k) (VPrim (primOfKey k))) = r"
      using ik r by simp
    show ?thesis
    proof (cases r)
      case (Inl x)
      then show ?thesis using ik r e False hv
        by (simp add: schemaLoop_Cons verdict_append del: inspectObject_schemaLoop.simps)
    next
      case (Inr x)
      show ?thesis
      proof (cases "truthy x")
        case True
        then show ?thesis using ik r e False Inr hv
          by (simp add: schemaLoop_Cons verdict_append del: inspectObject_schemaLoop.simps)
      next
        case nt: False
        have nf: "\<not> finished s1" using ik r Inr by simp
        have ih: "fst (inspectObject_schemaLoop insp v entries s1)
            = verdict (concat (map (\<lambda>e. checks cb (snd e) (getProp v (fst e)) (VPrim (primOfKey (fst e))))
                             (filter (\<lambda>e. \<not> reservedKey (fst e)) entries)))
           \<and> settled (inspectObject_schemaLoop insp v entries s1)"
          by (rule Cons.IH) (use Cons.prems nf in auto)
        show ?thesis using r e False Inr nt ih hv
          by (simp add: schemaLoop_Cons verdict_append del: inspectObject_schemaLoop.simps)
      qed
    qed
  qed
qed

lemma catchRemaining_pure:
  assumes "pureSpec cb insp catchOther" "matchers_function catchOther" "\<not> finished st"
  shows "fst (inspectKey insp catchOther x k st) = verdict [catchRemaining cb catchOther x k]
       \<and> settled (inspectKey insp catchOther x k st)"
proof -
  obtain n c where c: "catchOther = VFun n c" using assms(2) by (cases catchOther) auto
  show ?thesis
    using inspectKey_pure[OF assms(1,3), of x k] c by (simp add: checks.simps)
qed

lemma valueLoop_pure:
  assumes "matchers_undefined catchOther \<or> (matchers_function catchOther \<and> pureSpec cb insp catchOther)"
    "\<not> finished st"
  shows "fst (inspectObject_valueLoop insp schema catchOther entries st)
        = verdict (map (\<lambda>e. catchRemaining cb catchOther (snd e) (primOfKey (fst e)))
                     (filter (\<lambda>e. \<not> hasProperty schema (fst e)) entries))
       \<and> settled (inspectObject_valueLoop insp schema catchOther entries st)"
  using assms
proof (induction entries arbitrary: st)
  case Nil
  then show ?case by simp
next
  case (Cons e entries)
  obtain k x where e: "e = (k, x)" by (cases e)
  show ?case
  proof (cases "hasProperty schema k")
    case True
    then show ?thesis using Cons e by simp
  next
    case False
    show ?thesis
    proof (cases "matchers_undefined catchOther")
      case True
      then have "catchRemaining cb catchOther x (primOfKey k) = Extra"
        by (cases catchOther rule: matchers_undefined.cases) auto
      then show ?thesis using True False e Cons.prems(2) by (simp add: verdict_Cons)
    next
      case nu: False
      then have f: "matchers_function catchOther" and ps: "pureSpec cb insp catchOther"
        using Cons.prems(1) by auto
      note ik = catchRemaining_pure[OF ps f Cons.prems(2), of x "primOfKey k"]
      obtain r s1 where r: "inspectKey insp catchOther x (primOfKey k) st = (r, s1)"
        by (cases "inspectKey insp catchOther x (primOfKey k) st")
      have hv: "verdict [catchRemaining cb catchOther x (primOfKey k)] = r"
        using ik r by simp
      have va: "\<And>cs. verdict (catchRemaining cb catchOther x (primOfKey k) # cs)
          = (case r of Inl e \<Rightarrow> Inl e | Inr y \<Rightarrow> if truthy y then Inr y else verdict cs)"
        using verdict_append[of "[catchRemaining cb catchOther x (primOfKey k)]"] hv by simp
      show ?thesis
      proof (cases r)
        case (Inl y)
        then show ?thesis using ik r e False nu va
          by simp
      next
        case (Inr y)
        show ?thesis
        proof (cases "truthy y")
          case True
          then show ?thesis using ik r e False nu Inr va
            by simp
        next
          case nt: False
          have nf: "\<not> finished s1" using ik r Inr by simp
          have ih: "fst (inspectObject_valueLoop insp schema catchOther entries s1)
            = verdict (map (\<lambda>e. catchRemaining cb catchOther (snd e) (primOfKey (fst e)))
                     (filter (\<lambda>e. \<not> hasProperty schema (fst e)) entries))
            \<and> settled (inspectObject_valueLoop insp schema catchOther entries s1)"
            by (rule Cons.IH) (use Cons.prems nf in auto)
          show ?thesis using r e False nu Inr nt ih va
            by simp
        qed
      qed
    qed
  qed
qed


lemma arraySchemaLoop_pure:
  assumes "\<And>i. i \<in> set indices \<Longrightarrow> pureSpec cb insp (getIndex schema i)" "\<not> finished st"
  shows "fst (inspectArray_schemaLoop insp schema vs indices st)
        = verdict (concat (map (\<lambda>i. checks cb (getIndex schema i) (getIndex vs i) (VPrim (PNum (Fin (int i)))))
                             indices))
       \<and> settled (inspectArray_schemaLoop insp schema vs indices st)"
  using assms
proof (induction indices arbitrary: st)
  case Nil
  then show ?case by simp
next
  case (Cons i indices)
  have ps: "pureSpec cb insp (getIndex schema i)" using Cons.prems(1)[of i] by simp
  note ik = inspectKey_pure[OF ps Cons.prems(2), of "getIndex vs i" "PNum (Fin (int i))"]
  obtain r s1 where r: "inspectKey insp (getIndex schema i) (getIndex vs i) (PNum (Fin (int i))) st = (r, s1)"
    by (cases "inspectKey insp (getIndex schema i) (getIndex vs i) (PNum (Fin (int i))) st")
  have hv: "verdict (checks cb (getIndex schema i) (getIndex vs i) (VPrim (PNum (Fin (int i))))) = r"
    using ik r by simp
  show ?case
  proof (cases r)
    case (Inl x)
    then show ?thesis using ik r hv by (simp add: verdict_append)
  next
    case (Inr x)
    show ?thesis
    proof (cases "truthy x")
      case True
      then show ?thesis using ik r Inr hv by (simp add: verdict_append)
    next
      case nt: False
      have nf: "\<not> finished s1" using ik r Inr by simp
      have ih: "fst (inspectArray_schemaLoop insp schema vs indices s1)
        = verdict (concat (map (\<lambda>i. checks cb (getIndex schema i) (getIndex vs i) (VPrim (PNum (Fin (int i)))))
                             indices))
       \<and> settled (inspectArray_schemaLoop insp schema vs indices s1)"
        by (rule Cons.IH) (use Cons.prems nf in auto)
      show ?thesis using r Inr nt ih hv by (simp add: verdict_append)
    qed
  qed
qed

lemma arrayValueLoop_pure:
  assumes "matchers_undefined catchOther \<or> (matchers_function catchOther \<and> pureSpec cb insp catchOther)"
    "\<not> finished st"
  shows "fst (inspectArray_valueLoop insp catchOther vs indices st)
        = verdict (map (\<lambda>i. catchRemaining cb catchOther (getIndex vs i) (PNum (Fin (int i)))) indices)
       \<and> settled (inspectArray_valueLoop insp catchOther vs indices st)"
  using assms
proof (induction indices arbitrary: st)
  case Nil
  then show ?case by simp
next
  case (Cons i indices)
  show ?case
  proof (cases "matchers_undefined catchOther")
    case True
    then have "catchRemaining cb catchOther (getIndex vs i) (PNum (Fin (int i))) = Extra"
      by (cases catchOther rule: matchers_undefined.cases) auto
    then show ?thesis using True Cons.prems(2) by (simp add: verdict_Cons)
  next
    case nu: False
    then have f: "matchers_function catchOther" and ps: "pureSpec cb insp catchOther"
      using Cons.prems(1) by auto
    note ik = catchRemaining_pure[OF ps f Cons.prems(2), of "getIndex vs i" "PNum (Fin (int i))"]
    obtain r s1 where r: "inspectKey insp catchOther (getIndex vs i) (PNum (Fin (int i))) st = (r, s1)"
      by (cases "inspectKey insp catchOther (getIndex vs i) (PNum (Fin (int i))) st")
    have hv: "verdict [catchRemaining cb catchOther (getIndex vs i) (PNum (Fin (int i)))] = r"
      using ik r by simp
    have va: "\<And>cs. verdict (catchRemaining cb catchOther (getIndex vs i) (PNum (Fin (int i))) # cs)
          = (case r of Inl e \<Rightarrow> Inl e | Inr y \<Rightarrow> if truthy y then Inr y else verdict cs)"
      using verdict_append[of "[catchRemaining cb catchOther (getIndex vs i) (PNum (Fin (int i)))]"] hv by simp
    show ?thesis
    proof (cases r)
      case (Inl y)
      then show ?thesis using ik r nu va by simp
    next
      case (Inr y)
      show ?thesis
      proof (cases "truthy y")
        case True
        then show ?thesis using ik r nu Inr va by simp
      next
        case nt: False
        have nf: "\<not> finished s1" using ik r Inr by simp
        have ih: "fst (inspectArray_valueLoop insp catchOther vs indices s1)
          = verdict (map (\<lambda>i. catchRemaining cb catchOther (getIndex vs i) (PNum (Fin (int i)))) indices)
          \<and> settled (inspectArray_valueLoop insp catchOther vs indices s1)"
          by (rule Cons.IH) (use Cons.prems nf in auto)
        show ?thesis using r nu Inr nt ih va by simp
      qed
    qed
  qed
qed

lemma validateObjectSchema_result:
  "validateObjectSchema schema st = (fst (validateObjectSchema schema st'),
     case fst (validateObjectSchema schema st') of Inl e \<Rightarrow> reset True st | Inr r \<Rightarrow> st)"
  by (auto simp: validateObjectSchema_def resetAndThrow_def Let_def split: option.splits)

lemma validateObjectSchema_catch:
  "fst (validateObjectSchema schema st) = Inr (catchOther, shapeError) \<Longrightarrow>
   catchOther = getProp schema (KSym SymOther)
   \<and> (matchers_undefined catchOther \<or> matchers_function catchOther)"
  by (auto simp: validateObjectSchema_def resetAndThrow_def Let_def split: option.splits if_splits)

lemma validateArraySchema_loop_result:
  "validateArraySchema_loop sl f t st = (fst (validateArraySchema_loop sl f t st'),
     case fst (validateArraySchema_loop sl f t st') of Inl e \<Rightarrow> reset True st | Inr r \<Rightarrow> st)"
  by (induction sl arbitrary: f t) (auto simp: resetAndThrow_def Let_def)

lemma validateArraySchema_result:
  "validateArraySchema sl st = (fst (validateArraySchema sl st'),
     case fst (validateArraySchema sl st') of Inl e \<Rightarrow> reset True st | Inr r \<Rightarrow> st)"
proof -
  let ?a = "drop (length (takeWhile regularSlot sl) + 1) sl"
  obtain r' s' where p': "validateArraySchema_loop ?a undefined_v undefined_v st' = (r', s')"
    by (cases "validateArraySchema_loop ?a undefined_v undefined_v st'")
  have p: "validateArraySchema_loop ?a undefined_v undefined_v st
      = (r', case r' of Inl e \<Rightarrow> reset True st | Inr r \<Rightarrow> st)"
    using validateArraySchema_loop_result[of ?a undefined_v undefined_v st st'] p' by simp
  show ?thesis
    using p p'
    by (cases r') (auto simp: validateArraySchema_def Let_def resetAndThrow_def split: option.splits)
qed

lemma validateArraySchema_loop_catch:
  "fst (validateArraySchema_loop sl f t st) = Inr (f', t') \<Longrightarrow>
   matchers_undefined f \<or> matchers_function f \<Longrightarrow>
   matchers_undefined f' \<or> matchers_function f'"
  by (induction sl arbitrary: f t) (auto simp: resetAndThrow_def Let_def split: if_splits)

lemma validateArraySchema_catch:
  "fst (validateArraySchema sl st) = Inr (maxIndex, catchOther, shapeError) \<Longrightarrow>
   matchers_undefined catchOther \<or> matchers_function catchOther"
  using validateArraySchema_loop_catch[of "drop (length (takeWhile regularSlot sl) + 1) sl"
      undefined_v undefined_v st catchOther shapeError]
  by (auto simp: validateArraySchema_def resetAndThrow_def Let_def
      split: option.splits if_splits prod.splits sum.splits)


lemma currentKey_funnel [simp]: "currentKey (st\<lparr>funnel := f\<rparr>) = currentKey st"
  by (simp add: currentKey_def)

lemma currentKey_valuesStack [simp]: "currentKey (st\<lparr>valuesStack := f\<rparr>) = currentKey st"
  by (simp add: currentKey_def)

lemma finished_reset [simp]: "finished (reset True st)"
  by (simp add: reset_def basicReset_def)

lemma run_pure:
  assumes "\<not> finished st"
  shows "fst (run (pureCall cb) c v st) = verdict [Callback (cb c v (currentKey st))]
       \<and> settled (run (pureCall cb) c v st)"
  using assms
  by (cases "cb c v (currentKey st)")
     (auto simp: run_def pureCall_def Let_def verdict_Cons)

lemma inspectObject_pure:
  assumes "\<And>sub. sub \<in> subschemas (VObj es ih) \<Longrightarrow> pureSpec cb insp sub" "\<not> finished st"
  shows "fst (inspectObject insp (VObj es ih) v st) = verdict (checks cb (VObj es ih) v k)
       \<and> settled (inspectObject insp (VObj es ih) v st)"
proof (cases "fst (validateObjectSchema (VObj es ih) newInstance)")
  case (Inl e)
  then show ?thesis
    using validateObjectSchema_result[of "VObj es ih" st newInstance]
    by (simp add: inspectObject_def checks.simps verdict_Cons)
next
  case (Inr t)
  obtain catchOther shapeError where t: "t = (catchOther, shapeError)" by (cases t)
  have vs: "validateObjectSchema (VObj es ih) st = (Inr (catchOther, shapeError), st)"
    using validateObjectSchema_result[of "VObj es ih" st newInstance] Inr t by simp
  note c = validateObjectSchema_catch[OF Inr[unfolded t]]
  show ?thesis
  proof (cases "matchers_object v")
    case False
    then show ?thesis using vs Inr t assms(2)
      by (simp add: inspectObject_def checks.simps verdict_Cons)
  next
    case True
    have sl: "fst (inspectObject_schemaLoop insp v (allEntries (VObj es ih)) st)
        = verdict (concat (map (\<lambda>e. checks cb (snd e) (getProp v (fst e)) (VPrim (primOfKey (fst e))))
                             (filter (\<lambda>e. \<not> reservedKey (fst e)) (allEntries (VObj es ih)))))
       \<and> settled (inspectObject_schemaLoop insp v (allEntries (VObj es ih)) st)"
    proof (rule schemaLoop_pure)
      fix e assume "e \<in> set (allEntries (VObj es ih))"
      then have "e \<in> set es" using set_allEntries[of es ih] by auto
      then have "snd e \<in> subschemas (VObj es ih)" by auto
      then show "pureSpec cb insp (snd e)" by (rule assms(1))
    qed (rule assms(2))
    have co: "matchers_undefined catchOther \<or> (matchers_function catchOther \<and> pureSpec cb insp catchOther)"
    proof (cases "matchers_undefined catchOther")
      case True
      then show ?thesis by simp
    next
      case False
      then have "catchOther \<in> subschemas (VObj es ih)"
        using c getProp_in_subschemas[of es ih "KSym SymOther"] by simp
      then show ?thesis using c False assms(1) by blast
    qed
    obtain r s1 where r: "inspectObject_schemaLoop insp v (allEntries (VObj es ih)) st = (r, s1)"
      by (cases "inspectObject_schemaLoop insp v (allEntries (VObj es ih)) st")
    have hv: "verdict (concat (map (\<lambda>e. checks cb (snd e) (getProp v (fst e)) (VPrim (primOfKey (fst e))))
                             (filter (\<lambda>e. \<not> reservedKey (fst e)) (allEntries (VObj es ih))))) = r"
      using sl r by simp
    show ?thesis
    proof (cases r)
      case (Inl x)
      then show ?thesis using vs Inr t True r hv sl
        by (simp add: inspectObject_def checks.simps verdict_append)
    next
      case ir: (Inr x)
      show ?thesis
      proof (cases "truthy x")
        case tx: True
        then show ?thesis using vs Inr t True r hv sl ir
          by (simp add: inspectObject_def checks.simps verdict_append)
      next
        case False
        have nf: "\<not> finished s1" using sl r ir by simp
        note vl = valueLoop_pure[OF co nf, of "VObj es ih" "allEntries v"]
        show ?thesis using vs Inr t True r hv ir False vl
          by (simp add: inspectObject_def checks.simps verdict_append)
      qed
    qed
  qed
qed

lemma inspectObject_wrap_pure:
  assumes "\<not> finished st"
  shows "fst (inspectObject insp (VWrap w) v st) = verdict (checks cb (VWrap w) v k)
       \<and> settled (inspectObject insp (VWrap w) v st)"
proof -
  obtain e where e: "fst (validateObjectSchema (VWrap w) newInstance) = Inl e"
    using validateObjectSchema_VWrap[of w newInstance] by force
  then show ?thesis
    using validateObjectSchema_result[of "VWrap w" st newInstance]
    by (simp add: inspectObject_def checks.simps verdict_Cons)
qed

lemma inspectArray_pure:
  assumes "\<And>sub. sub \<in> subschemas (VArr sl) \<Longrightarrow> pureSpec cb insp sub" "\<not> finished st"
  shows "fst (inspectArray insp (VArr sl) v st) = verdict (checks cb (VArr sl) v k)
       \<and> settled (inspectArray insp (VArr sl) v st)"
proof (cases "fst (validateArraySchema sl newInstance)")
  case (Inl e)
  then show ?thesis
    using validateArraySchema_result[of sl st newInstance]
    by (simp add: inspectArray_def checks.simps verdict_Cons)
next
  case (Inr t)
  obtain maxIndex catchOther shapeError where t: "t = (maxIndex, catchOther, shapeError)" by (cases t)
  have vs: "validateArraySchema sl st = (Inr (maxIndex, catchOther, shapeError), st)"
    using validateArraySchema_result[of sl st newInstance] Inr t by simp
  note c = validateArraySchema_catch[OF Inr[unfolded t]]
  note m = validateArraySchema_Inr[OF vs]
  show ?thesis
  proof (cases "matchers_array v")
    case False
    then show ?thesis using vs Inr t assms(2)
      by (simp add: inspectArray_def checks.simps verdict_Cons)
  next
    case True
    have sl: "fst (inspectArray_schemaLoop insp sl (arraySlots v) [0..<maxIndex] st)
        = verdict (concat (map (\<lambda>i. checks cb (getIndex sl i) (getIndex (arraySlots v) i) (VPrim (PNum (Fin (int i)))))
                             [0..<maxIndex]))
       \<and> settled (inspectArray_schemaLoop insp sl (arraySlots v) [0..<maxIndex] st)"
    proof (rule arraySchemaLoop_pure)
      fix i assume "i \<in> set [0..<maxIndex]"
      then have "Some (getIndex sl i) \<in> set sl" using m(1) regular_getIndex by auto
      then have "getIndex sl i \<in> subschemas (VArr sl)" by simp
      then show "pureSpec cb insp (getIndex sl i)" by (rule assms(1))
    qed (rule assms(2))
    have co: "matchers_undefined catchOther \<or> (matchers_function catchOther \<and> pureSpec cb insp catchOther)"
    proof (cases "matchers_undefined catchOther")
      case True
      then show ?thesis by simp
    next
      case False
      then have "catchOther \<in> subschemas (VArr sl)" using m(2) by simp
      then show ?thesis using c False assms(1) by blast
    qed
    obtain r s1 where r: "inspectArray_schemaLoop insp sl (arraySlots v) [0..<maxIndex] st = (r, s1)"
      by (cases "inspectArray_schemaLoop insp sl (arraySlots v) [0..<maxIndex] st")
    have hv: "verdict (concat (map (\<lambda>i. checks cb (getIndex sl i) (getIndex (arraySlots v) i) (VPrim (PNum (Fin (int i)))))
                             [0..<maxIndex])) = r"
      using sl r by simp
    show ?thesis
    proof (cases r)
      case (Inl x)
      then show ?thesis using vs Inr t True r hv sl
        by (simp add: inspectArray_def checks.simps verdict_append)
    next
      case ir: (Inr x)
      show ?thesis
      proof (cases "truthy x")
        case tx: True
        then show ?thesis using vs Inr t True r hv sl ir
          by (simp add: inspectArray_def checks.simps verdict_append)
      next
        case False
        have nf: "\<not> finished s1" using sl r ir by simp
        note vl = arrayValueLoop_pure[OF co nf, of "arraySlots v" "[maxIndex..<length (arraySlots v)]"]
        show ?thesis using vs Inr t True r hv ir False vl
          by (simp add: inspectArray_def checks.simps verdict_append)
      qed
    qed
  qed
qed

lemma inspectDeeper_settled:
  assumes "fst (inspector schema v (st\<lparr>funnel := funnel st @ [v]\<rparr>)) = x
         \<and> settled (inspector schema v (st\<lparr>funnel := funnel st @ [v]\<rparr>))"
  shows "fst (inspectDeeper inspector schema v st) = x \<and> settled (inspectDeeper inspector schema v st)"
  using assms
  by (cases "inspector schema v (st\<lparr>funnel := funnel st @ [v]\<rparr>)";
      cases "fst (inspector schema v (st\<lparr>funnel := funnel st @ [v]\<rparr>))")
     (auto simp: inspectDeeper_def)

lemma doInspect_pure:
  assumes "\<And>sub. sub \<in> subschemas schema \<Longrightarrow> pureSpec cb insp sub" "\<not> finished st"
  shows "fst (doInspect insp (pureCall cb) schema v st) = verdict (checks cb schema v (currentKey st))
       \<and> settled (doInspect insp (pureCall cb) schema v st)"
proof (cases schema)
  case (VPrim p)
  then show ?thesis using assms(2) by (simp add: doInspect_def checks.simps verdict_Cons)
next
  case (VFun n c)
  then show ?thesis using run_pure[OF assms(2), of cb c v] by (simp add: doInspect_def checks.simps)
next
  case (VObj es ih)
  have "fst (inspectDeeper (inspectObject insp) (VObj es ih) v st) = verdict (checks cb (VObj es ih) v (currentKey st))
      \<and> settled (inspectDeeper (inspectObject insp) (VObj es ih) v st)"
    by (rule inspectDeeper_settled, rule inspectObject_pure) (use assms VObj in auto)
  then show ?thesis using VObj by (simp add: doInspect_def)
next
  case (VArr sl)
  have "fst (inspectDeeper (inspectArray insp) (VArr sl) v st) = verdict (checks cb (VArr sl) v (currentKey st))
      \<and> settled (inspectDeeper (inspectArray insp) (VArr sl) v st)"
    by (rule inspectDeeper_settled, rule inspectArray_pure) (use assms VArr in auto)
  then show ?thesis using VArr by (simp add: doInspect_def)
next
  case (VWrap w)
  have "fst (inspectDeeper (inspectObject insp) (VWrap w) v st) = verdict (checks cb (VWrap w) v (currentKey st))
      \<and> settled (inspectDeeper (inspectObject insp) (VWrap w) v st)"
    by (rule inspectDeeper_settled, rule inspectObject_wrap_pure) (use assms in auto)
  then show ?thesis using VWrap by (simp add: doInspect_def)
qed

lemma inspect_pure:
  "\<not> finished st \<Longrightarrow>
   fst (inspect (pureCall cb) schema v st) = verdict (checks cb schema v (currentKey st))
   \<and> settled (inspect (pureCall cb) schema v st)"
proof (induction "pureCall cb" schema v st rule: inspect.induct)
  case (1 schema v st)
  have "fst (doInspect (inspect (pureCall cb)) (pureCall cb) schema v st)
          = verdict (checks cb schema v (currentKey st))
       \<and> settled (doInspect (inspect (pureCall cb)) (pureCall cb) schema v st)"
  proof (rule doInspect_pure)
    fix sub assume "sub \<in> subschemas schema"
    then show "pureSpec cb (inspect (pureCall cb)) sub"
      unfolding pureSpec_def using "1.hyps" by blast
  qed (rule "1.prems")
  then show ?case
    by (cases "doInspect (inspect (pureCall cb)) (pureCall cb) schema v st";
        cases "fst (doInspect (inspect (pureCall cb)) (pureCall cb) schema v st)")
       (auto simp: inspect.simps[of "pureCall cb" schema])
qed

definition enter :: "'c state \<Rightarrow> 'c state" where
  "enter st = (if validatorDepth st = 0 then st\<lparr>started := True\<rparr> else st)
      \<lparr>validatorDepth := validatorDepth st + 1\<rparr>"

definition leave :: "'c state \<Rightarrow> 'c state" where
  "leave st =
     (let st4 = st\<lparr>validatorDepth := validatorDepth st - 1\<rparr> in
      if validatorDepth st4 = 0 then basicReset True st4 else st4)"

lemma validator_admitted:
  assumes "\<not> (validatorDepth st = 0 \<and> finished st)" "length args > 1 \<or> valuesStack st \<noteq> []"
  shows "validator call args st =
      (case inspect call (argSchema args) (if length args > 1 then args ! 0 else currentValue st) (enter st) of
         (Inl e, st3) \<Rightarrow> (Inl e, st3)
       | (Inr error, st3) \<Rightarrow> (Inr error, leave st3))"
  using assms unfolding validator_def enter_def leave_def Let_def
  by (auto simp: currentValue_def)

lemma validator_pure:
  assumes "\<not> finished st"
  shows "fst (validator (pureCall cb) [v, schema] st) = verdict (checks cb schema v (currentKey st))
       \<and> (isl (fst (validator (pureCall cb) [v, schema] st))
            \<longrightarrow> finished (snd (validator (pureCall cb) [v, schema] st)))"
proof -
  have nf: "\<not> finished (enter st)" using assms by (simp add: enter_def)
  have ck: "currentKey (enter st) = currentKey st" by (simp add: enter_def currentKey_def)
  have v: "validator (pureCall cb) [v, schema] st =
      (case inspect (pureCall cb) schema v (enter st) of
         (Inl e, st3) \<Rightarrow> (Inl e, st3)
       | (Inr error, st3) \<Rightarrow> (Inr error, leave st3))"
    using validator_admitted[of st "[v, schema]" "pureCall cb"] assms by (simp add: argSchema_def)
  show ?thesis
    using inspect_pure[OF nf, of cb schema v] ck
    by (cases "inspect (pureCall cb) schema v (enter st)"; cases "fst (inspect (pureCall cb) schema v (enter st))")
       (auto simp: v)
qed


lemma verdict_first:
  "list_all passes pre \<Longrightarrow> \<not> passes c \<Longrightarrow> verdict (pre @ c # post) = outcomeOf c"
  by (induction pre) (auto simp: verdict_Cons passes_decisive)






section \<open>Exceptions thrown by callbacks (claim C8)\<close>

text \<open>
  Claim C8, as amended. \<^verbatim>\<open>run\<close> (lines 59--75) lets the exception of a callback
  through unchanged, after a \<^verbatim>\<open>reset()\<close> that finishes the session when it was not
  finished; from then on a call of the validator on that session throws
  \<^verbatim>\<open>To validate another value, use nonvalid.instance()\<close> (line 223). A callback that
  returns normally in a finished session (it swallowed the exception of a nested
  validation) makes \<^verbatim>\<open>run\<close> throw \<^verbatim>\<open>Cannot proceed with validation after an error\<close>.
  With callbacks that are functions of their arguments, the exception of the first
  check that fails is the result of the top-level call, which leaves the session
  finished.
\<close>

theorem callback_fault_propagates:
  "(call c v (currentKey st) (st\<lparr>valuesStack := valuesStack st @ [v]\<rparr>) = (Inl e, st2) \<longrightarrow>
      run call c v st = (Inl e, if finished st2 then st2 else reset True st2)
      \<and> finished (snd (run call c v st))
      \<and> (\<not> finished st2 \<longrightarrow>
           fst (validator call args (snd (run call c v st))) = Inl (Error UseInstance)))
   \<and> (call c v (currentKey st) (st\<lparr>valuesStack := valuesStack st @ [v]\<rparr>) = (Inr r, st2) \<and> finished st2 \<longrightarrow>
      run call c v st = (Inl (Error CannotProceed), st2))
   \<and> (\<not> finished st \<and> checks cb schema v (currentKey st) = pre @ Callback (Inl e) # post
        \<and> list_all passes pre \<longrightarrow>
      fst (validator (pureCall cb) [v, schema] st) = Inl e
      \<and> finished (snd (validator (pureCall cb) [v, schema] st)))
   \<and> (finished st \<and> validatorDepth st = 0 \<longrightarrow>
      fst (validator call args st) = Inl (Error UseInstance))"
proof (intro conjI impI)
  assume a: "call c v (currentKey st) (st\<lparr>valuesStack := valuesStack st @ [v]\<rparr>) = (Inl e, st2)"
  then show r: "run call c v st = (Inl e, if finished st2 then st2 else reset True st2)"
    by (simp add: run_def Let_def)
  then show "finished (snd (run call c v st))" by simp
  show "fst (validator call args (snd (run call c v st))) = Inl (Error UseInstance)"
    if "\<not> finished st2"
    using r that by (simp add: validator_def resetAndThrow_def reset_def basicReset_def)
next
  assume "call c v (currentKey st) (st\<lparr>valuesStack := valuesStack st @ [v]\<rparr>) = (Inr r, st2) \<and> finished st2"
  then show "run call c v st = (Inl (Error CannotProceed), st2)"
    by (simp add: run_def Let_def)
next
  assume a: "\<not> finished st \<and> checks cb schema v (currentKey st) = pre @ Callback (Inl e) # post
        \<and> list_all passes pre"
  then have nf: "\<not> finished st" by simp
  have "verdict (checks cb schema v (currentKey st)) = Inl e"
    using a verdict_first[of pre "Callback (Inl e)" post] by simp
  then show f: "fst (validator (pureCall cb) [v, schema] st) = Inl e"
    using validator_pure[OF nf, of cb v schema] by simp
  show "finished (snd (validator (pureCall cb) [v, schema] st))"
    using validator_pure[OF nf, of cb v schema] f by simp
next
  assume "finished st \<and> validatorDepth st = 0"
  then show "fst (validator call args st) = Inl (Error UseInstance)"
    by (simp add: validator_def resetAndThrow_def)
qed

text \<open>
  The examples of the test \<^verbatim>\<open>reusing instances and handling errors\<close>: a callback that
  throws; a callback that swallows the exception of a nested validation and returns
  \<^verbatim>\<open>false\<close>; and the same callback returning \<^verbatim>\<open>nv(1, 1)\<close> instead.
\<close>

definition throwingSchema :: "expr jsval" where
  "throwingSchema = VFun 0 (Throw ''custom'')"

definition swallowingSchema :: "expr jsval" where
  "swallowingSchema =
     VFun 0 (Seq (TryCatch (Nv1 (object [(KStr ''value'', VFun 1 (Throw ''custom''))])) (Const undefined_v))
                 (Const false_v))"

definition retryingSchema :: "expr jsval" where
  "retryingSchema =
     VFun 0 (Seq (TryCatch (Nv1 (object [(KStr ''value'', VFun 1 (Throw ''custom''))])) (Const undefined_v))
                 (Nv2 (Const (VPrim (PNum (Fin 1)))) (VPrim (PNum (Fin 1)))))"

definition valueObject :: "expr jsval" where
  "valueObject = object [(KStr ''value'', VPrim (PNum (Fin 123)))]"

text \<open>
  Claim C8 as stated does not hold for every attempt to go on validating on the
  session: in
  \<^verbatim>\<open>nv({ value: 123 }, () => { try { nv({ value: () => { throw E } }) } catch (e) {} return nv(1, 1) })\<close>
  the call \<^verbatim>\<open>nv(1, 1)\<close> that follows the swallowed exception throws
  \<^verbatim>\<open>To validate another value, use nonvalid.instance()\<close>, which is what the top-level
  call throws too; and so does a new top-level call on a session that a callback's
  exception has finished.
\<close>

theorem callback_fault_propagates_counterexample:
  "fst (validator exec [valueObject, retryingSchema] newInstance) = Inl (Error UseInstance)
   \<and> fst (validator exec [valueObject, retryingSchema] newInstance) \<noteq> Inl (Error CannotProceed)
   \<and> fst (validator exec [VPrim (PNum (Fin 123)), VPrim (PNum (Fin 124))]
            (snd (validator exec [VPrim (PNum (Fin 123)), throwingSchema] newInstance)))
       = Inl (Error UseInstance)"
  by (simp add: run_simps throwingSchema_def retryingSchema_def valueObject_def)

theorem callback_fault_propagates_witness:
  "run exec (Throw ''custom'') (VPrim (PNum (Fin 123))) newInstance
     = (Inl (Thrown ''custom''), reset True (newInstance\<lparr>valuesStack := [VPrim (PNum (Fin 123))]\<rparr>))
   \<and> fst (validator exec [VPrim (PNum (Fin 123)), throwingSchema] newInstance) = Inl (Thrown ''custom'')
   \<and> finished (snd (validator exec [VPrim (PNum (Fin 123)), throwingSchema] newInstance))
   \<and> fst (validator exec [valueObject, swallowingSchema] newInstance) = Inl (Error CannotProceed)
   \<and> fst (validator exec [VPrim (PNum (Fin 123)), VPrim (PNum (Fin 124))]
            (snd (validator exec [valueObject, swallowingSchema] newInstance))) = Inl (Error UseInstance)"
proof -
  have a: "exec (Throw ''custom'') (VPrim (PNum (Fin 123))) (currentKey newInstance)
            (newInstance\<lparr>valuesStack := valuesStack newInstance @ [VPrim (PNum (Fin 123))]\<rparr>)
         = (Inl (Thrown ''custom''), newInstance\<lparr>valuesStack := [VPrim (PNum (Fin 123))]\<rparr>)"
    by (simp add: exec.simps newInstance_def)
  have b: "\<not> finished (newInstance\<lparr>valuesStack := [VPrim (PNum (Fin 123)) :: expr jsval]\<rparr>)"
    by (simp add: newInstance_def)
  have c: "fst (validator exec [VPrim (PNum (Fin 123)), throwingSchema] newInstance) = Inl (Thrown ''custom'')
   \<and> finished (snd (validator exec [VPrim (PNum (Fin 123)), throwingSchema] newInstance))
   \<and> fst (validator exec [valueObject, swallowingSchema] newInstance) = Inl (Error CannotProceed)
   \<and> fst (validator exec [VPrim (PNum (Fin 123)), VPrim (PNum (Fin 124))]
            (snd (validator exec [valueObject, swallowingSchema] newInstance))) = Inl (Error UseInstance)"
    by (simp add: run_simps throwingSchema_def swallowingSchema_def valueObject_def)
  show ?thesis
    using a b c
      callback_fault_propagates [where call = exec and c = "Throw ''custom''"
        and v = "VPrim (PNum (Fin 123))" and st = newInstance and e = "Thrown ''custom''"
        and ?st2.0 = "newInstance\<lparr>valuesStack := [VPrim (PNum (Fin 123))]\<rparr>"]
    by simp
qed

end
